theory Spec2Isabelle
  imports Main "HOL-Library.Sublist"
begin

section \<open>Python values\<close>

text \<open>
  A Python \<open>str\<close> is a sequence of Unicode code points: a character is its code point
  (a \<open>nat\<close>), a string a list of them. \<open>u\<close> turns an ASCII literal into such a string.
  A tuple or list of strings is a list of strings.
\<close>

type_synonym ustr = "nat list"

definition u :: "string \<Rightarrow> ustr" where
  "u s = map of_char s"

text \<open>The exceptions the modelled code can raise. \<open>RecursionError\<close> is what CPython raises
  when a recursion does not end.\<close>

datatype py_error = IndexError | ValueError | NotImplementedError | KeyError | TypeError
  | RecursionError

text \<open>Iterating over a \<open>str\<close> yields its characters as one-character strings:
  \<open>tuple(orig)\<close>, and a \<open>for\<close> loop over a returned \<open>str\<close>.\<close>

definition chars :: "ustr \<Rightarrow> ustr list" where
  "chars s = map (\<lambda>c. [c]) s"

text \<open>The end-of-word marker \<open>'</w>'\<close>, the feature symbol U+FFE8 and the OpenNMT
  separator U+FFED.\<close>

definition eow :: ustr where
  "eow = u ''</w>''"

definition feat_sym :: nat where
  "feat_sym = 65512"

definition onmt_sep :: nat where
  "onmt_sep = 65517"

subsection \<open>\<open>str\<close> methods\<close>

text \<open>\<open>str.isspace\<close> of one character: the code points Python treats as whitespace.\<close>

definition isspace :: "nat \<Rightarrow> bool" where
  "isspace c \<longleftrightarrow> (9 \<le> c \<and> c \<le> 13) \<or> (28 \<le> c \<and> c \<le> 32) \<or> c = 133 \<or> c = 160
     \<or> c = 5760 \<or> (8192 \<le> c \<and> c \<le> 8202) \<or> c = 8232 \<or> c = 8233 \<or> c = 8239
     \<or> c = 8287 \<or> c = 12288"

text \<open>\<open>s.strip()\<close>: whitespace removed at both ends.\<close>

definition strip :: "ustr \<Rightarrow> ustr" where
  "strip s = rev (dropWhile isspace (rev (dropWhile isspace s)))"

text \<open>\<open>s.split()\<close>: the maximal runs of non-whitespace characters.\<close>

fun split_ws_acc :: "ustr \<Rightarrow> ustr \<Rightarrow> ustr list" where
  "split_ws_acc cur [] = (if cur = [] then [] else [cur])"
| "split_ws_acc cur (c # cs) =
     (if isspace c then (if cur = [] then split_ws_acc [] cs else cur # split_ws_acc [] cs)
      else split_ws_acc (cur @ [c]) cs)"

definition split_ws :: "ustr \<Rightarrow> ustr list" where
  "split_ws s = split_ws_acc [] s"

text \<open>\<open>s.split(sep)\<close> for a non-empty \<open>sep\<close>: the pieces between the occurrences of
  \<open>sep\<close>, found from the left without overlap. Python raises \<open>ValueError\<close> for an empty
  separator; \<open>split_sep\<close> is only called behind that check.\<close>

function split_sep_acc :: "ustr \<Rightarrow> ustr \<Rightarrow> ustr \<Rightarrow> ustr list" where
  "split_sep_acc sep cur s =
     (if s = [] then [cur]
      else if sep \<noteq> [] \<and> prefix sep s then cur # split_sep_acc sep [] (drop (length sep) s)
      else split_sep_acc sep (cur @ [hd s]) (tl s))"
  by pat_completeness auto
termination
  by (relation "measure (\<lambda>(sep, cur, s). length s)") auto

declare split_sep_acc.simps [simp del]

definition split_sep :: "ustr \<Rightarrow> ustr \<Rightarrow> py_error + ustr list" where
  "split_sep s sep = (if sep = [] then Inl ValueError else Inr (split_sep_acc sep [] s))"

text \<open>\<open>s.replace(old, new)\<close>: every occurrence of \<open>old\<close>, found from the left without
  overlap, becomes \<open>new\<close>. For an empty \<open>old\<close> Python puts \<open>new\<close> around every character.\<close>

function replace_ne :: "ustr \<Rightarrow> ustr \<Rightarrow> ustr \<Rightarrow> ustr" where
  "replace_ne old new s =
     (if s = [] then []
      else if old \<noteq> [] \<and> prefix old s then new @ replace_ne old new (drop (length old) s)
      else hd s # replace_ne old new (tl s))"
  by pat_completeness auto
termination
  by (relation "measure (\<lambda>(old, new, s). length s)") auto

declare replace_ne.simps [simp del]

definition replace :: "ustr \<Rightarrow> ustr \<Rightarrow> ustr \<Rightarrow> ustr" where
  "replace s old new =
     (if old = [] then new @ concat (map (\<lambda>c. c # new) s) else replace_ne old new s)"

text \<open>\<open>sep.join(xs)\<close>.\<close>

fun join :: "ustr \<Rightarrow> ustr list \<Rightarrow> ustr" where
  "join sep [] = []"
| "join sep [x] = x"
| "join sep (x # y # ys) = x @ sep @ join sep (y # ys)"

text \<open>
  \<open>str.lower\<close>, \<open>str.upper\<close> and \<open>str.isupper\<close> of one character, on the ASCII range:
  the letters \<open>A\<close>..\<open>Z\<close> are 65..90, \<open>a\<close>..\<open>z\<close> are 97..122. Code points outside the
  ASCII letters are left unchanged and are not upper case; beyond ASCII Python
  follows the Unicode case tables, which are not modelled, so statements about case
  are made for ASCII letters, and for the separators, which have no case.
\<close>

definition isupper :: "nat \<Rightarrow> bool" where
  "isupper c \<longleftrightarrow> 65 \<le> c \<and> c \<le> 90"

definition islower :: "nat \<Rightarrow> bool" where
  "islower c \<longleftrightarrow> 97 \<le> c \<and> c \<le> 122"

definition lower_c :: "nat \<Rightarrow> nat" where
  "lower_c c = (if isupper c then c + 32 else c)"

definition upper_c :: "nat \<Rightarrow> nat" where
  "upper_c c = (if islower c then c - 32 else c)"

definition lower :: "ustr \<Rightarrow> ustr" where
  "lower s = map lower_c s"

definition upper :: "ustr \<Rightarrow> ustr" where
  "upper s = map upper_c s"

subsection \<open>\<open>dict\<close>\<close>

text \<open>
  A \<open>dict\<close> that the code iterates over is an association list with distinct keys in
  insertion order: storing under a key that is present overwrites the value where it
  stands, a new key goes to the end. \<open>dict(items)\<close> stores the items in order. A lookup
  is \<open>map_of\<close>.
\<close>

type_synonym ('k, 'v) dict = "('k \<times> 'v) list"

definition dict_set :: "('k, 'v) dict \<Rightarrow> 'k \<Rightarrow> 'v \<Rightarrow> ('k, 'v) dict" where
  "dict_set d k v =
     (if k \<in> fst ` set d then map (\<lambda>(k', v'). if k' = k then (k', v) else (k', v')) d
      else d @ [(k, v)])"

definition dict_of :: "('k \<times> 'v) list \<Rightarrow> ('k, 'v) dict" where
  "dict_of items = foldl (\<lambda>d (k, v). dict_set d k v) [] items"

section \<open>apply\_bpe.py\<close>

subsection \<open>The merge loop of \<open>encode\<close>\<close>

type_synonym pair = "ustr \<times> ustr"

text \<open>The rule table \<open>bpe_codes\<close> maps a tuple of symbols (the tokens of one line of the rule
  file) to its rank, the reverse table \<open>bpe_codes_reverse\<close> maps a merged symbol to such
  a tuple.\<close>

type_synonym codes = "(ustr list, nat) dict"
type_synonym codes_reverse = "(ustr, ustr list) dict"

text \<open>
  \<open>get_pairs(word)\<close>: the set of adjacent pairs of symbols; \<open>word[0]\<close> raises on an empty
  tuple. The set is kept as a duplicate-free list; Python fixes no iteration order for
  a set, and the order matters only to \<open>min\<close> among pairs of equal rank.
\<close>

fun get_pairs :: "ustr list \<Rightarrow> py_error + pair list" where
  "get_pairs [] = Inl IndexError"
| "get_pairs (prev_char # rest) = Inr (remdups (zip (prev_char # rest) rest))"

text \<open>\<open>bpe_codes.get(pair, float('inf'))\<close>: \<open>None\<close> stands for infinity.\<close>

definition rank :: "codes \<Rightarrow> pair \<Rightarrow> nat option" where
  "rank bpe_codes p = map_of bpe_codes [fst p, snd p]"

definition key_less :: "nat option \<Rightarrow> nat option \<Rightarrow> bool" where
  "key_less a b = (case a of None \<Rightarrow> False | Some x \<Rightarrow> (case b of None \<Rightarrow> True | Some y \<Rightarrow> x < y))"

text \<open>\<open>min(pairs, key=...)\<close>: the first element whose key no other element is below.\<close>

fun min_from :: "('a \<Rightarrow> nat option) \<Rightarrow> 'a \<Rightarrow> 'a list \<Rightarrow> 'a" where
  "min_from key best [] = best"
| "min_from key best (x # xs) = min_from key (if key_less (key x) (key best) then x else best) xs"

definition min_by :: "('a \<Rightarrow> nat option) \<Rightarrow> 'a list \<Rightarrow> py_error + 'a" where
  "min_by key xs = (case xs of [] \<Rightarrow> Inl ValueError | x # rest \<Rightarrow> Inr (min_from key x rest))"

text \<open>\<open>word.index(first, i)\<close>: the first position from \<open>i\<close> on that holds \<open>first\<close>, or
  \<open>None\<close> where Python raises \<open>ValueError\<close>.\<close>

fun find_from :: "'a list \<Rightarrow> 'a \<Rightarrow> nat \<Rightarrow> nat option" where
  "find_from [] x i = None"
| "find_from (y # ys) x i =
     (case i of
        0 \<Rightarrow> (if y = x then Some 0 else map_option Suc (find_from ys x 0))
      | Suc k \<Rightarrow> map_option Suc (find_from ys x k))"

lemma find_from_bounds: "find_from w x i = Some j \<Longrightarrow> i \<le> j \<and> j < length w"
proof (induction w x i arbitrary: j rule: find_from.induct)
  case (1 x i)
  then show ?case by simp
next
  case (2 y ys x i)
  then show ?case by (cases i) (auto split: if_splits)
qed

text \<open>
  The inner \<open>while i < len(word)\<close> loop of \<open>encode\<close>, which rewrites \<open>word\<close> into
  \<open>new_word\<close> with every occurrence of \<open>first, second\<close> merged, from the left.
\<close>

function merge_scan :: "ustr \<Rightarrow> ustr \<Rightarrow> ustr list \<Rightarrow> nat \<Rightarrow> ustr list \<Rightarrow> ustr list" where
  "merge_scan first second word i new_word =
     (if i < length word then
        (case find_from word first i of
           None \<Rightarrow> new_word @ drop i word
         | Some j \<Rightarrow>
             (if word ! j = first \<and> j < length word - 1 \<and> word ! (j + 1) = second
              then merge_scan first second word (j + 2)
                     (new_word @ take (j - i) (drop i word) @ [first @ second])
              else merge_scan first second word (j + 1)
                     (new_word @ take (j - i) (drop i word) @ [word ! j])))
      else new_word)"
  by pat_completeness auto
termination
  by (relation "measure (\<lambda>(first, second, word, i, new_word). length word - i)")
     (auto dest: find_from_bounds)

declare merge_scan.simps [simp del]

text \<open>
  The \<open>while True\<close> loop of \<open>encode\<close>. \<open>pairs\<close> is \<open>get_pairs(word)\<close> whenever the loop
  body starts, so the model computes it there. The loop is entered with at least one
  pair; on an empty tuple \<open>get_pairs\<close> raises, and with no pair \<open>min\<close> raises \<open>ValueError\<close>.
\<close>

definition merge_step :: "codes \<Rightarrow> ustr list \<Rightarrow> py_error + ustr list option" where
  "merge_step bpe_codes word =
     (case get_pairs word of
        Inl e \<Rightarrow> Inl e
      | Inr pairs \<Rightarrow>
          (case min_by (rank bpe_codes) pairs of
             Inl e \<Rightarrow> Inl e
           | Inr bigram \<Rightarrow>
               (if rank bpe_codes bigram = None then Inr None
                else Inr (Some (merge_scan (fst bigram) (snd bigram) word 0 [])))))"

text \<open>The same rewriting as a recursion over the rest of \<open>word\<close>; \<open>merge_scan\<close> computes it
  (lemma \<open>merge_scan_merge_pair\<close>).\<close>

fun merge_pair :: "ustr \<Rightarrow> ustr \<Rightarrow> ustr list \<Rightarrow> ustr list" where
  "merge_pair first second [] = []"
| "merge_pair first second [x] = [x]"
| "merge_pair first second (x # y # ys) =
     (if x = first \<and> y = second then (first @ second) # merge_pair first second ys
      else x # merge_pair first second (y # ys))"

lemma find_from_None: "find_from w x i = None \<Longrightarrow> x \<notin> set (drop i w)"
proof (induction w x i rule: find_from.induct)
  case (1 x i) then show ?case by simp
next
  case (2 y ys x i) then show ?case by (cases i) (auto split: if_splits)
qed

lemma find_from_Some:
  "find_from w x i = Some j \<Longrightarrow> w ! j = x \<and> x \<notin> set (take (j - i) (drop i w))"
proof (induction w x i arbitrary: j rule: find_from.induct)
  case (1 x i) then show ?case by simp
next
  case (2 y ys x i) then show ?case by (cases i) (auto split: if_splits)
qed

lemma merge_pair_skip: "first \<notin> set pre \<Longrightarrow> merge_pair first second (pre @ rest) = pre @ merge_pair first second rest"
proof (induction pre)
  case Nil then show ?case by simp
next
  case (Cons a pre)
  then show ?case by (cases "pre @ rest") auto
qed

lemma merge_pair_notin: "first \<notin> set w \<Longrightarrow> merge_pair first second w = w"
  using merge_pair_skip [of first w second "[]"] by simp

lemma drop_split: "i \<le> j \<Longrightarrow> j < length w \<Longrightarrow> drop i w = take (j - i) (drop i w) @ w ! j # drop (Suc j) w"
  by (metis Cons_nth_drop_Suc append_take_drop_id drop_drop le_add_diff_inverse2)

lemma merge_scan_merge_pair:
  "merge_scan first second word i new_word = new_word @ merge_pair first second (drop i word)"
proof (induction first second word i new_word rule: merge_scan.induct)
  case (1 first second word i new_word)
  show ?case
  proof (cases "i < length word")
    case False
    then show ?thesis by (simp add: merge_scan.simps [of first second word i])
  next
    case True
    show ?thesis
    proof (cases "find_from word first i")
      case None
      from find_from_None [OF None] have "merge_pair first second (drop i word) = drop i word"
        by (rule merge_pair_notin)
      with True None show ?thesis by (simp add: merge_scan.simps [of first second word i])
    next
      case (Some j)
      from find_from_bounds [OF Some] have ij: "i \<le> j" "j < length word" by auto
      from find_from_Some [OF Some] have wj: "word ! j = first"
        and pre: "first \<notin> set (take (j - i) (drop i word))" by auto
      have split: "drop i word = take (j - i) (drop i word) @ word ! j # drop (Suc j) word"
        using ij by (rule drop_split)
      have mp: "merge_pair first second (drop i word)
        = take (j - i) (drop i word) @ merge_pair first second (word ! j # drop (Suc j) word)"
        using merge_pair_skip [OF pre, of second "word ! j # drop (Suc j) word"] split by simp
      show ?thesis
      proof (cases "j < length word - 1 \<and> word ! (j + 1) = second")
        case m: True
        then have "drop (Suc j) word = second # drop (j + 2) word"
          by (metis Cons_nth_drop_Suc Suc_eq_plus1 add_2_eq_Suc' less_diff_conv)
        then have "merge_pair first second (word ! j # drop (Suc j) word)
           = (first @ second) # merge_pair first second (drop (j + 2) word)"
          using wj by simp
        with mp "1.IH"(1) [OF True Some] m wj True Some show ?thesis
          by (simp add: merge_scan.simps [of first second word i])
      next
        case m: False
        have "merge_pair first second (word ! j # drop (Suc j) word)
           = word ! j # merge_pair first second (drop (j + 1) word)"
        proof (cases "drop (Suc j) word")
          case Nil then show ?thesis by simp
        next
          case (Cons y ys)
          then have "Suc j < length word" by (metis drop_eq_Nil2 list.distinct(1) not_le)
          then have "y = word ! (j + 1)" using Cons by (metis Cons_nth_drop_Suc Suc_eq_plus1 list.inject)
          with m \<open>Suc j < length word\<close> have "y \<noteq> second" by auto
          with Cons show ?thesis by simp
        qed
        with mp "1.IH"(2) [OF True Some] m wj True Some show ?thesis
          by (auto simp add: merge_scan.simps [of first second word i])
      qed
    qed
  qed
qed

lemma length_merge_pair_le: "length (merge_pair first second w) \<le> length w"
  by (induction first second w rule: merge_pair.induct) auto

lemma length_merge_pair_less:
  "(first, second) \<in> set (zip w (tl w)) \<Longrightarrow> length (merge_pair first second w) < length w"
proof (induction first second w rule: merge_pair.induct)
  case (1 first second) then show ?case by simp
next
  case (2 first second x) then show ?case by simp
next
  case (3 first second x y ys)
  then show ?case using length_merge_pair_le [of first second ys] by (auto simp: less_Suc_eq_le)
qed

lemma concat_merge_pair: "concat (merge_pair first second w) = concat w"
  by (induction first second w rule: merge_pair.induct) auto

lemma min_from_in: "min_from key best xs \<in> insert best (set xs)"
  by (induction key best xs rule: min_from.induct) auto

lemma min_by_in: "min_by key xs = Inr b \<Longrightarrow> b \<in> set xs"
  using min_from_in [of key "hd xs" "tl xs"] by (cases xs) (auto simp: min_by_def)

lemma merge_step_length:
  "merge_step bpe_codes word = Inr (Some new_word) \<Longrightarrow> length new_word < length word"
proof -
  assume a: "merge_step bpe_codes word = Inr (Some new_word)"
  then obtain x rest where w: "word = x # rest" by (cases word) (auto simp: merge_step_def)
  from a w obtain bigram where b: "min_by (rank bpe_codes) (remdups (zip word rest)) = Inr bigram"
    and n: "new_word = merge_scan (fst bigram) (snd bigram) word 0 []"
    by (auto simp: merge_step_def split: sum.splits if_splits)
  from min_by_in [OF b] w have "(fst bigram, snd bigram) \<in> set (zip word (tl word))" by simp
  then show ?thesis unfolding n merge_scan_merge_pair by (simp add: length_merge_pair_less)
qed

text \<open>
  The \<open>while True\<close> loop: \<open>break\<close> when the best pair has no rank or one symbol is left.
  Each merge shortens \<open>word\<close>, which is the termination argument.
\<close>

function merge_loop :: "codes \<Rightarrow> ustr list \<Rightarrow> py_error + ustr list" where
  "merge_loop bpe_codes word =
     (case merge_step bpe_codes word of
        Inl e \<Rightarrow> Inl e
      | Inr None \<Rightarrow> Inr word
      | Inr (Some new_word) \<Rightarrow>
          (if length new_word = 1 then Inr new_word else merge_loop bpe_codes new_word))"
  by pat_completeness auto
termination
  by (relation "measure (\<lambda>(bpe_codes, word). length word)") (auto dest: merge_step_length)

declare merge_loop.simps [simp del]

subsection \<open>Removing the end-of-word marker\<close>

text \<open>
  \<open>word[-1] == '</w>'\<close> drops the last symbol; \<open>word[-1].endswith('</w>')\<close> replaces every
  occurrence of the marker in the last symbol by the empty string.
\<close>

definition strip_eow :: "ustr list \<Rightarrow> py_error + ustr list" where
  "strip_eow word =
     (if word = [] then Inl IndexError
      else if last word = eow then Inr (butlast word)
      else if suffix eow (last word) then Inr (butlast word @ [replace (last word) eow []])
      else Inr word)"

subsection \<open>\<open>recursive_split\<close> and \<open>check_vocab_and_split\<close>\<close>

text \<open>
  \<open>left, right = bpe_codes[segment]\<close> inside \<open>try\<close>: a missing key and a tuple that is not
  a pair both end in the \<open>except\<close> branch. With \<open>final\<close> the key is \<open>segment + '</w>'\<close> and
  \<open>right\<close> loses its last four characters (\<open>right[:-4]\<close>).
\<close>

definition unpack_pair :: "ustr list option \<Rightarrow> (ustr \<times> ustr) option" where
  "unpack_pair v = (case v of Some [left, right] \<Rightarrow> Some (left, right) | _ \<Rightarrow> None)"

definition split_lookup :: "codes_reverse \<Rightarrow> ustr \<Rightarrow> bool \<Rightarrow> (ustr \<times> ustr) option" where
  "split_lookup bpe_codes segment final =
     (if final then
        (case unpack_pair (map_of bpe_codes (segment @ eow)) of
           None \<Rightarrow> None
         | Some (left, right) \<Rightarrow> Some (left, take (length right - 4) right))
      else unpack_pair (map_of bpe_codes segment))"

text \<open>
  The generator \<open>recursive_split\<close>, as the list of the items it yields. The recursion need
  not end (a reverse table can send the empty final segment to itself), so the function
  is partial: \<open>None\<close> is a recursion without end, which CPython reports as
  \<open>RecursionError\<close>.
\<close>

partial_function (option) recursive_split_gen ::
  "ustr \<Rightarrow> codes_reverse \<Rightarrow> ustr set \<Rightarrow> ustr \<Rightarrow> bool \<Rightarrow> ustr list option" where
  "recursive_split_gen segment bpe_codes vocab separator final =
     (case split_lookup bpe_codes segment final of
        None \<Rightarrow> Some [segment]
      | Some (left, right) \<Rightarrow>
          Option.bind
            (if left @ separator \<in> vocab then Some [left]
             else recursive_split_gen left bpe_codes vocab separator False)
            (\<lambda>ls. Option.bind
               (if (final \<and> right \<in> vocab) \<or> (\<not> final \<and> right @ separator \<in> vocab)
                then Some [right]
                else recursive_split_gen right bpe_codes vocab separator final)
               (\<lambda>rs. Some (ls @ rs))))"

declare recursive_split_gen.simps [code]

definition recursive_split ::
  "ustr \<Rightarrow> codes_reverse \<Rightarrow> ustr set \<Rightarrow> ustr \<Rightarrow> bool \<Rightarrow> py_error + ustr list" where
  "recursive_split segment bpe_codes vocab separator final =
     (case recursive_split_gen segment bpe_codes vocab separator final of
        None \<Rightarrow> Inl RecursionError
      | Some items \<Rightarrow> Inr items)"

text \<open>The loop of \<open>check_vocab_and_split\<close> over \<open>orig[:-1]\<close>, appending to \<open>out\<close>.\<close>

fun check_segments ::
  "ustr list \<Rightarrow> codes_reverse \<Rightarrow> ustr set \<Rightarrow> ustr \<Rightarrow> py_error + ustr list" where
  "check_segments [] bpe_codes vocab separator = Inr []"
| "check_segments (segment # rest) bpe_codes vocab separator =
     (case (if segment @ separator \<in> vocab then Inr [segment]
            else recursive_split segment bpe_codes vocab separator False) of
        Inl e \<Rightarrow> Inl e
      | Inr items \<Rightarrow>
          (case check_segments rest bpe_codes vocab separator of
             Inl e \<Rightarrow> Inl e
           | Inr out \<Rightarrow> Inr (items @ out)))"

definition check_vocab_and_split ::
  "ustr list \<Rightarrow> codes_reverse \<Rightarrow> ustr set \<Rightarrow> ustr \<Rightarrow> py_error + ustr list" where
  "check_vocab_and_split orig bpe_codes vocab separator =
     (case check_segments (butlast orig) bpe_codes vocab separator of
        Inl e \<Rightarrow> Inl e
      | Inr out \<Rightarrow>
          (if orig = [] then Inl IndexError
           else
             (case (if last orig \<in> vocab then Inr [last orig]
                    else recursive_split (last orig) bpe_codes vocab separator True) of
                Inl e \<Rightarrow> Inl e
              | Inr items \<Rightarrow> Inr (out @ items))))"

subsection \<open>\<open>encode\<close>\<close>

text \<open>
  The initial tuple of symbols: version \<open>(0, 1)\<close> appends the marker as a symbol of its
  own, version \<open>(0, 2)\<close> appends it to the last character (\<open>orig[-1]\<close> raises on the empty
  string), any other version raises \<open>NotImplementedError\<close>.
\<close>

definition initial_word :: "ustr \<Rightarrow> int list \<Rightarrow> py_error + ustr list" where
  "initial_word orig version =
     (if version = [0, 1] then Inr (chars orig @ [eow])
      else if version = [0, 2] then
        (if orig = [] then Inl IndexError else Inr (chars (butlast orig) @ [[last orig] @ eow]))
      else Inl NotImplementedError)"

text \<open>
  \<open>encode\<close> returns the sequence of pieces and the cache as it leaves it. The cache is
  only looked up and stored into, so it is a map. \<open>vocab\<close> is \<open>None\<close> or a set, and
  \<open>if vocab\<close> is false for \<open>None\<close> and for the empty set. \<open>return orig\<close> hands back the
  \<open>str\<close> itself, which the caller iterates over: the pieces are its characters.
\<close>

type_synonym cache = "ustr \<rightharpoonup> ustr list"

definition encode ::
  "ustr \<Rightarrow> codes \<Rightarrow> codes_reverse \<Rightarrow> ustr set option \<Rightarrow> ustr \<Rightarrow> int list \<Rightarrow> cache \<Rightarrow> ustr list
     \<Rightarrow> py_error + (ustr list \<times> cache)" where
  "encode orig bpe_codes bpe_codes_reverse vocab separator version cache glossaries =
     (case cache orig of
        Some cached \<Rightarrow> Inr (cached, cache)
      | None \<Rightarrow>
          (if orig \<in> set glossaries then Inr ([orig], cache(orig \<mapsto> [orig]))
           else
             (case initial_word orig version of
                Inl e \<Rightarrow> Inl e
              | Inr word \<Rightarrow>
                  (case get_pairs word of
                     Inl e \<Rightarrow> Inl e
                   | Inr pairs \<Rightarrow>
                       (if pairs = [] then Inr (chars orig, cache)
                        else
                          (case merge_loop bpe_codes word of
                             Inl e \<Rightarrow> Inl e
                           | Inr merged \<Rightarrow>
                               (case strip_eow merged of
                                  Inl e \<Rightarrow> Inl e
                                | Inr stripped \<Rightarrow>
                                    (case (case vocab of
                                             None \<Rightarrow> Inr stripped
                                           | Some voc \<Rightarrow>
                                               (if voc = {} then Inr stripped
                                                else check_vocab_and_split stripped
                                                       bpe_codes_reverse voc separator)) of
                                       Inl e \<Rightarrow> Inl e
                                     | Inr result \<Rightarrow>
                                         Inr (result, cache(orig \<mapsto> result))))))))))"

subsection \<open>Glossaries\<close>

text \<open>
  \<open>isolate_glossary(word, glossary)\<close>. \<open>glossary not in word\<close> is the substring test;
  \<open>word.split(glossary)\<close> raises \<open>ValueError\<close> for the empty glossary. The test
  \<open>segment != ''\<close> of the comprehension comes before \<open>strip\<close>.
\<close>

definition isolate_glossary :: "ustr \<Rightarrow> ustr \<Rightarrow> py_error + ustr list" where
  "isolate_glossary word glossary =
     (if word = glossary \<or> \<not> sublist glossary word then Inr [word]
      else
        (case split_sep word glossary of
           Inl e \<Rightarrow> Inl e
         | Inr splits \<Rightarrow>
             (let segments =
                    map strip (filter (\<lambda>segment. segment \<noteq> [])
                      (concat (map (\<lambda>split. [split, glossary]) (butlast splits))))
              in if last splits \<noteq> [] then Inr (segments @ [strip (last splits)])
                 else Inr segments)))"

text \<open>The comprehension of \<open>_isolate_glossaries\<close> for one glossary, and its loop over
  \<open>self.glossaries\<close>.\<close>

fun isolate_each :: "ustr list \<Rightarrow> ustr \<Rightarrow> py_error + ustr list" where
  "isolate_each [] gloss = Inr []"
| "isolate_each (segment # rest) gloss =
     (case isolate_glossary segment gloss of
        Inl e \<Rightarrow> Inl e
      | Inr out_segments \<Rightarrow>
          (case isolate_each rest gloss of
             Inl e \<Rightarrow> Inl e
           | Inr more \<Rightarrow> Inr (out_segments @ more)))"

fun isolate_loop :: "ustr list \<Rightarrow> ustr list \<Rightarrow> py_error + ustr list" where
  "isolate_loop word_segments [] = Inr word_segments"
| "isolate_loop word_segments (gloss # rest) =
     (case isolate_each word_segments gloss of
        Inl e \<Rightarrow> Inl e
      | Inr segs \<Rightarrow> isolate_loop segs rest)"

definition isolate_glossaries :: "ustr list \<Rightarrow> ustr \<Rightarrow> py_error + ustr list" where
  "isolate_glossaries glossaries word = isolate_loop [word] glossaries"

subsection \<open>The case feature\<close>

text \<open>\<open>get_case_feature(surf)\<close>; \<open>surf[0]\<close> raises on the empty string. \<open>u_mid\<close> is whether
  all of \<open>surf[1:-1]\<close> is upper case.\<close>

definition get_case_feature :: "ustr \<Rightarrow> py_error + ustr" where
  "get_case_feature surf =
     (if surf = [] then Inl IndexError
      else
        (let u_start = isupper (hd surf); len = length surf in
         if len = 1 then (if u_start then Inr (u ''S'') else Inr (u ''N''))
         else
           (let u_end = isupper (last surf) in
            if len = 2 then
              (if u_start \<and> u_end then Inr (u ''A'')
               else if u_start then Inr (u ''S'')
               else if u_end then Inr (u ''E'')
               else Inr (u ''N''))
            else
              (let u_mid = list_all isupper (butlast (tl surf)) in
               if u_end then
                 (if u_start \<and> u_mid then Inr (u ''A'')
                  else if u_start then Inr (u ''B'')
                  else Inr (u ''E''))
               else if u_start then Inr (u ''S'')
               else Inr (u ''N'')))))"

subsection \<open>\<open>BPE.segment\<close>, one word at a time\<close>

text \<open>Lines 61 to 65: the word that is segmented. With the case feature it is lower-cased
  and the feature symbol in it becomes \<open>|\<close>.\<close>

definition norm_word :: "bool \<Rightarrow> ustr \<Rightarrow> ustr" where
  "norm_word case_feature word =
     (if case_feature then
        (let lowered = lower word in
         if feat_sym \<in> set lowered then replace lowered [feat_sym] (u ''|'') else lowered)
      else word)"

text \<open>The comprehension \<open>[out for segment in ... for out in encode(segment, ...)]\<close>; every
  call of \<open>encode\<close> sees the cache the call before it left.\<close>

fun encode_each ::
  "ustr list \<Rightarrow> codes \<Rightarrow> codes_reverse \<Rightarrow> ustr set option \<Rightarrow> ustr \<Rightarrow> int list \<Rightarrow> cache \<Rightarrow> ustr list
     \<Rightarrow> py_error + (ustr list \<times> cache)" where
  "encode_each [] bpe_codes bpe_codes_reverse vocab separator version cache glossaries =
     Inr ([], cache)"
| "encode_each (segment # rest) bpe_codes bpe_codes_reverse vocab separator version cache glossaries =
     (case encode segment bpe_codes bpe_codes_reverse vocab separator version cache glossaries of
        Inl e \<Rightarrow> Inl e
      | Inr (outs, cache1) \<Rightarrow>
          (case encode_each rest bpe_codes bpe_codes_reverse vocab separator version cache1
                  glossaries of
             Inl e \<Rightarrow> Inl e
           | Inr (more, cache2) \<Rightarrow> Inr (outs @ more, cache2)))"

text \<open>Without the case feature: every item but the last gets the separator;
  \<open>new_word[-1]\<close> raises on an empty list.\<close>

definition plain_items :: "ustr list \<Rightarrow> ustr \<Rightarrow> py_error + ustr list" where
  "plain_items new_word separator =
     (if new_word = [] then Inl IndexError
      else Inr (map (\<lambda>item. item @ separator) (butlast new_word) @ [last new_word]))"

text \<open>With the case feature: the loop over \<open>new_word[:-1]\<close> with the position \<open>pos\<close> in the
  original word, then the last item, whose surface is \<open>word[pos:]\<close>.\<close>

fun feature_loop :: "ustr list \<Rightarrow> ustr \<Rightarrow> nat \<Rightarrow> ustr \<Rightarrow> py_error + (ustr list \<times> nat)" where
  "feature_loop [] word pos separator = Inr ([], pos)"
| "feature_loop (item # rest) word pos separator =
     (case get_case_feature (take (length item) (drop pos word)) of
        Inl e \<Rightarrow> Inl e
      | Inr feat \<Rightarrow>
          (case feature_loop rest word (pos + length item) separator of
             Inl e \<Rightarrow> Inl e
           | Inr (outs, pos1) \<Rightarrow> Inr ((item @ separator @ [feat_sym] @ feat) # outs, pos1)))"

definition feature_items :: "ustr list \<Rightarrow> ustr \<Rightarrow> ustr \<Rightarrow> py_error + ustr list" where
  "feature_items new_word word separator =
     (case feature_loop (butlast new_word) word 0 separator of
        Inl e \<Rightarrow> Inl e
      | Inr (outs, pos) \<Rightarrow>
          (case get_case_feature (drop pos word) of
             Inl e \<Rightarrow> Inl e
           | Inr feat \<Rightarrow>
               (if new_word = [] then Inl IndexError
                else Inr (outs @ [last new_word @ [feat_sym] @ feat]))))"

subsection \<open>Reading the rule file\<close>

text \<open>
  \<open>re.sub(r'(\.0+)*$', '', s)\<close> removes the longest run of groups \<open>.0\<close>, \<open>.00\<close>, ... at the
  end of \<open>s\<close>; the function works on the reversed string.
\<close>

function strip_zero_groups_rev :: "ustr \<Rightarrow> ustr" where
  "strip_zero_groups_rev r =
     (let rest = dropWhile (\<lambda>c. c = 48) r in
      if takeWhile (\<lambda>c. c = 48) r \<noteq> [] \<and> rest \<noteq> [] \<and> hd rest = 46
      then strip_zero_groups_rev (tl rest) else r)"
  by pat_completeness auto
termination
proof (relation "measure length")
  show "wf (measure length)" by simp
next
  fix r :: ustr and x
  assume "x = dropWhile (\<lambda>c. c = 48) r"
    and "takeWhile (\<lambda>c. c = 48) r \<noteq> [] \<and> x \<noteq> [] \<and> hd x = 46"
  then have "length (tl x) < length x" and "length x \<le> length r"
    by (auto simp: length_dropWhile_le)
  then show "(tl x, r) \<in> measure length" by simp
qed

declare strip_zero_groups_rev.simps [simp del]

definition strip_zero_groups :: "ustr \<Rightarrow> ustr" where
  "strip_zero_groups s = rev (strip_zero_groups_rev (rev s))"

text \<open>
  \<open>int(x)\<close> on a string without whitespace: an optional sign and ASCII digits, otherwise
  \<open>ValueError\<close>. (Python 3 also takes underscores between digits and the decimal
  digits of other scripts; the model rejects them.)
\<close>

definition isdigit :: "nat \<Rightarrow> bool" where
  "isdigit c \<longleftrightarrow> 48 \<le> c \<and> c \<le> 57"

definition digits_value :: "ustr \<Rightarrow> nat" where
  "digits_value ds = foldl (\<lambda>acc d. 10 * acc + (d - 48)) 0 ds"

definition py_int :: "ustr \<Rightarrow> py_error + int" where
  "py_int x =
     (let negative = (x \<noteq> [] \<and> hd x = 45);
          ds = (if x \<noteq> [] \<and> (hd x = 45 \<or> hd x = 43) then tl x else x)
      in if ds = [] \<or> \<not> list_all isdigit ds then Inl ValueError
         else Inr (if negative then - int (digits_value ds) else int (digits_value ds)))"

fun py_ints :: "ustr list \<Rightarrow> py_error + int list" where
  "py_ints [] = Inr []"
| "py_ints (x # xs) =
     (case py_int x of
        Inl e \<Rightarrow> Inl e
      | Inr n \<Rightarrow> (case py_ints xs of Inl e \<Rightarrow> Inl e | Inr ns \<Rightarrow> Inr (n # ns)))"

text \<open>The version of a first line that starts with \<open>#version:\<close>.\<close>

definition parse_version :: "ustr \<Rightarrow> py_error + int list" where
  "parse_version firstline =
     (if split_ws firstline = [] then Inl IndexError
      else py_ints (split_sep_acc (u ''.'') [] (strip_zero_groups (last (split_ws firstline)))))"

text \<open>\<open>enumerate\<close>, and the items of the reverse table: \<open>pair[0] + pair[1]\<close> raises
  \<open>IndexError\<close> on a line with fewer than two tokens.\<close>

definition enumerate_from0 :: "'a list \<Rightarrow> (nat \<times> 'a) list" where
  "enumerate_from0 xs = zip [0..<length xs] xs"

fun reverse_items :: "(ustr list \<times> nat) list \<Rightarrow> py_error + (ustr \<times> ustr list) list" where
  "reverse_items [] = Inr []"
| "reverse_items ((pair, i) # rest) =
     (case pair of
        a # b # _ \<Rightarrow>
          (case reverse_items rest of
             Inl e \<Rightarrow> Inl e
           | Inr items \<Rightarrow> Inr ((a @ b, pair) # items))
      | _ \<Rightarrow> Inl IndexError)"

subsection \<open>The class \<open>BPE\<close>\<close>

record BPE =
  version :: "int list"
  bpe_codes :: codes
  bpe_codes_reverse :: codes_reverse
  separator :: ustr
  vocab :: "ustr set option"
  glossaries :: "ustr list"
  case_feature :: bool
  cache :: cache

text \<open>
  \<open>BPE.__init__\<close>. The file \<open>codes\<close> is the list of its lines. A first line that starts
  with \<open>#version:\<close> gives the version and is not a rule; otherwise the version is
  \<open>(0, 1)\<close> and, after \<open>seek(0)\<close>, every line is a rule. A rule is the tuple of the
  tokens of its line. The rule table is built from the reversed enumeration, so that
  the first of several equal lines gives the rank; the reverse table from the items of
  the rule table in their order. The version is not compared with anything here.
\<close>

definition readline :: "ustr list \<Rightarrow> ustr" where
  "readline codes_file = (case codes_file of [] \<Rightarrow> [] | l # _ \<Rightarrow> l)"

definition has_header :: "ustr list \<Rightarrow> bool" where
  "has_header codes_file = prefix (u ''#version:'') (readline codes_file)"

definition rule_lines :: "ustr list \<Rightarrow> ustr list list" where
  "rule_lines codes_file =
     map split_ws (if has_header codes_file then tl codes_file else codes_file)"

definition rule_table :: "ustr list list \<Rightarrow> codes" where
  "rule_table rules = dict_of (rev (map (\<lambda>(i, code). (code, i)) (enumerate_from0 rules)))"

definition BPE_init ::
  "ustr list \<Rightarrow> ustr \<Rightarrow> ustr set option \<Rightarrow> ustr list option \<Rightarrow> bool \<Rightarrow> py_error + BPE" where
  "BPE_init codes_file sep voc gloss cf =
     (case (if has_header codes_file then parse_version (readline codes_file)
            else Inr [0, 1]) of
           Inl e \<Rightarrow> Inl e
         | Inr ver \<Rightarrow>
             (let table = rule_table (rule_lines codes_file)
              in case reverse_items table of
                   Inl e \<Rightarrow> Inl e
                 | Inr items \<Rightarrow>
                     Inr \<lparr>version = ver, bpe_codes = table, bpe_codes_reverse = dict_of items,
                          separator = sep, vocab = voc,
                          glossaries = (case gloss of None \<Rightarrow> [] | Some g \<Rightarrow> g),
                          case_feature = cf, cache = Map.empty\<rparr>))"

text \<open>The body of the loop of \<open>segment\<close> for one word: the items appended to \<open>output\<close>,
  and the engine with the cache as the calls of \<open>encode\<close> left it.\<close>

definition segment_word :: "BPE \<Rightarrow> ustr \<Rightarrow> py_error + (ustr list \<times> BPE)" where
  "segment_word self word =
     (case isolate_glossaries (glossaries self) (norm_word (case_feature self) word) of
        Inl e \<Rightarrow> Inl e
      | Inr segments \<Rightarrow>
          (case encode_each segments (bpe_codes self) (bpe_codes_reverse self) (vocab self)
                  (separator self) (version self) (cache self) (glossaries self) of
             Inl e \<Rightarrow> Inl e
           | Inr (new_word, cache1) \<Rightarrow>
               (case (if \<not> case_feature self then plain_items new_word (separator self)
                      else feature_items new_word word (separator self)) of
                  Inl e \<Rightarrow> Inl e
                | Inr items \<Rightarrow> Inr (items, self\<lparr>cache := cache1\<rparr>))))"

fun segment_words :: "BPE \<Rightarrow> ustr list \<Rightarrow> py_error + (ustr list \<times> BPE)" where
  "segment_words self [] = Inr ([], self)"
| "segment_words self (word # rest) =
     (case segment_word self word of
        Inl e \<Rightarrow> Inl e
      | Inr (items, self1) \<Rightarrow>
          (case segment_words self1 rest of
             Inl e \<Rightarrow> Inl e
           | Inr (others, self2) \<Rightarrow> Inr (items @ others, self2)))"

definition segment :: "BPE \<Rightarrow> ustr \<Rightarrow> py_error + (ustr \<times> BPE)" where
  "segment self sentence =
     (case segment_words self (split_ws sentence) of
        Inl e \<Rightarrow> Inl e
      | Inr (output, self1) \<Rightarrow> Inr (join (u '' '') output, self1))"

section \<open>detokenize.py\<close>

text \<open>\<open>apply_case(norm, feat)\<close>; \<open>norm[0]\<close> and \<open>without_sep[-1]\<close> raise on the empty
  string. The tag \<open>B\<close> makes the first character upper case, and only that one.\<close>

definition apply_case :: "ustr \<Rightarrow> ustr \<Rightarrow> py_error + ustr" where
  "apply_case norm feat =
     (if feat = u ''N'' then Inr norm
      else if feat = u ''A'' then Inr (upper norm)
      else if feat = u ''S'' then
        (if norm = [] then Inl IndexError else Inr (upper [hd norm] @ tl norm))
      else
        (let ends = (norm \<noteq> [] \<and> last norm = onmt_sep);
             without_end = (if ends then butlast norm else norm);
             end_sep = (if ends then [onmt_sep] else []);
             starts = (without_end \<noteq> [] \<and> hd without_end = onmt_sep);
             without_sep = (if starts then tl without_end else without_end);
             start_sep = (if starts then [onmt_sep] else [])
         in if feat = u ''E'' then
              (if without_sep = [] then Inl IndexError
               else Inr (start_sep @ butlast without_sep @ upper [last without_sep] @ end_sep))
            else if feat = u ''B'' then
              (if without_sep = [] then Inl IndexError
               else Inr (start_sep @ upper [hd without_sep] @ tl without_sep @ end_sep))
            else Inr (start_sep @ without_sep @ end_sep)))"

text \<open>The body of the loop over the words of a line: \<open>word.find\<close> of the feature symbol,
  then \<open>apply_case\<close> on what is before and after it.\<close>

definition detok_word :: "ustr \<Rightarrow> py_error + ustr" where
  "detok_word word =
     (if feat_sym \<notin> set word then Inr word
      else apply_case (takeWhile (\<lambda>c. c \<noteq> feat_sym) word)
             (tl (dropWhile (\<lambda>c. c \<noteq> feat_sym) word)))"

fun detok_words :: "ustr list \<Rightarrow> py_error + ustr list" where
  "detok_words [] = Inr []"
| "detok_words (word # rest) =
     (case detok_word word of
        Inl e \<Rightarrow> Inl e
      | Inr w \<Rightarrow> (case detok_words rest of Inl e \<Rightarrow> Inl e | Inr ws \<Rightarrow> Inr (w # ws)))"

text \<open>One line of the main loop: the words are joined with a space, then the separator
  with the space after it, and the space with the separator after it, are removed.\<close>

definition detok_line :: "ustr \<Rightarrow> py_error + ustr" where
  "detok_line line =
     (case detok_words (split_ws line) of
        Inl e \<Rightarrow> Inl e
      | Inr out_words \<Rightarrow>
          Inr (replace (replace (join (u '' '') out_words) [onmt_sep, 32] []) [32, onmt_sep] []))"

section \<open>bpe\_srv.py\<close>

text \<open>
  A loaded model is its name and its engine; a request body is the model name and the
  segment. The response is the JSON object \<open>{"err": ...}\<close> or \<open>{"res": ...}\<close>.
\<close>

record srv_model =
  name :: ustr
  bpe :: BPE

record request_body =
  model :: ustr
  seg :: ustr

datatype response = Err ustr | Res ustr

text \<open>The loop \<open>for m in models\<close>: \<open>found\<close> is the variable \<open>model\<close>, the last model whose
  name is the requested one.\<close>

fun find_model :: "srv_model list \<Rightarrow> ustr \<Rightarrow> srv_model option \<Rightarrow> srv_model option" where
  "find_model [] requested found = found"
| "find_model (m # ms) requested found =
     find_model ms requested (if name m = requested then Some m else found)"

text \<open>
  \<open>preprocess\<close>. After the loop the variable \<open>m\<close> is the last element of \<open>models\<close>, and the
  segmentation is run by \<open>m['bpe']\<close>. The result is the response and the models, the
  engine that ran holding its new cache.
\<close>

definition preprocess :: "srv_model list \<Rightarrow> request_body \<Rightarrow> py_error + (response \<times> srv_model list)" where
  "preprocess models body =
     (case find_model models (model body) None of
        None \<Rightarrow> Inr (Err (u ''no such model''), models)
      | Some found \<Rightarrow>
          (let m = last models in
           case segment (bpe m) (seg body) of
             Inl e \<Rightarrow> Inl e
           | Inr (res, bpe1) \<Rightarrow> Inr (Res (strip res), butlast models @ [m\<lparr>bpe := bpe1\<rparr>])))"

section \<open>Scenarios\<close>

text \<open>The rule table with \<open>(l, o)\<close> at rank 0 and \<open>(lo, w)\<close> at rank 1, its reverse table, and
  an engine over them with the separator \<open>@@\<close>, no vocabulary, no glossaries, no case
  feature and an empty cache.\<close>

definition lower_codes :: codes where
  "lower_codes = [([u ''l'', u ''o''], 0), ([u ''lo'', u ''w''], 1)]"

definition lower_reverse :: codes_reverse where
  "lower_reverse = [(u ''lo'', [u ''l'', u ''o'']), (u ''low'', [u ''lo'', u ''w''])]"

definition lower_engine :: "int list \<Rightarrow> BPE" where
  "lower_engine ver =
     \<lparr>version = ver, bpe_codes = lower_codes, bpe_codes_reverse = lower_reverse,
      separator = u ''@@'', vocab = None, glossaries = [], case_feature = False,
      cache = Map.empty\<rparr>"

text \<open>The cache that a call of \<open>encode\<close> leaves (empty for an exception), and the version
  of the engine that \<open>BPE.__init__\<close> returns.\<close>

definition cache_after :: "py_error + ('a \<times> cache) \<Rightarrow> cache" where
  "cache_after r = (case r of Inl e \<Rightarrow> Map.empty | Inr (x, c) \<Rightarrow> c)"

definition loaded_version :: "py_error + BPE \<Rightarrow> py_error + int list" where
  "loaded_version r = (case r of Inl e \<Rightarrow> Inl e | Inr self \<Rightarrow> Inr (version self))"

text \<open>What a call leaves when the state it returns with is dropped: the exception or the
  value.\<close>

definition outcome :: "py_error + ('a \<times> 'b) \<Rightarrow> py_error + 'a" where
  "outcome r = (case r of Inl e \<Rightarrow> Inl e | Inr (x, s) \<Rightarrow> Inr x)"

section \<open>Evaluation\<close>

text \<open>The equations that compute the model on a concrete input.\<close>

lemmas str_eval = u_def chars_def eow_def isspace_def split_ws_def split_sep_def
  split_sep_acc.simps replace_def replace_ne.simps strip_def suffix_to_prefix
  feat_sym_def onmt_sep_def isupper_def islower_def lower_def upper_def lower_c_def upper_c_def

lemmas merge_eval = merge_loop.simps merge_step_def min_by_def rank_def key_less_def
  merge_scan.simps strip_eow_def initial_word_def

lemmas engine_eval = encode_def segment_def segment_word_def isolate_glossaries_def
  norm_word_def plain_items_def outcome_def

section \<open>The merge loop on the word \<open>lower\<close>\<close>

text \<open>
  C2, as the specification states it, fails: with the two rules \<open>(l, o)\<close> and \<open>(lo, w)\<close> the word
  \<open>lower\<close> is not segmented into \<open>low@@\<close>, \<open>er\<close>. Nothing in the table merges \<open>e\<close> and \<open>r\<close>.
\<close>

theorem lower_not_low_er:
  "outcome (segment_word (lower_engine [0, 1]) (u ''lower'')) \<noteq> Inr [u ''low@@'', u ''er'']"
  by (simp add: lower_engine_def lower_codes_def engine_eval merge_eval str_eval)

text \<open>
  C2, amended: with the rule table of \<open>(l, o)\<close> at rank 0 and \<open>(lo, w)\<close> at rank 1, the
  separator \<open>@@\<close>, no vocabulary, no glossaries and no case feature, the word \<open>lower\<close>
  gives the output tokens \<open>low@@\<close>, \<open>e@@\<close>, \<open>r\<close>, under version 0.1 and under version 0.2.
  The merge loop takes the pair of lowest rank that is present, first \<open>(l, o)\<close>, then
  \<open>(lo, w)\<close>, and stops when no pair that is present is in the table.
\<close>

theorem lower_segments:
  "outcome (segment_word (lower_engine [0, 1]) (u ''lower'')) = Inr [u ''low@@'', u ''e@@'', u ''r'']
   \<and> outcome (segment_word (lower_engine [0, 2]) (u ''lower'')) = Inr [u ''low@@'', u ''e@@'', u ''r'']
   \<and> merge_step lower_codes [u ''l'', u ''o'', u ''w'', u ''e'', u ''r'', eow]
       = Inr (Some [u ''lo'', u ''w'', u ''e'', u ''r'', eow])
   \<and> merge_step lower_codes [u ''lo'', u ''w'', u ''e'', u ''r'', eow]
       = Inr (Some [u ''low'', u ''e'', u ''r'', eow])
   \<and> merge_step lower_codes [u ''low'', u ''e'', u ''r'', eow] = Inr None"
  by (simp add: lower_engine_def lower_codes_def engine_eval merge_eval str_eval)

section \<open>The merge loop returns\<close>

text \<open>On a word of two symbols or more the loop ends without an exception, leaves at
  least one symbol, and keeps the concatenation of the symbols.\<close>

lemma merge_pair_Nil_iff: "merge_pair first second w = [] \<longleftrightarrow> w = []"
  by (induction first second w rule: merge_pair.induct) auto

lemma get_pairs_Nil_iff: "get_pairs w = Inr [] \<longleftrightarrow> length w = 1"
proof (cases w)
  case Nil then show ?thesis by simp
next
  case (Cons x rest)
  then show ?thesis by (cases rest) auto
qed

lemma get_pairs_Inr: "w \<noteq> [] \<Longrightarrow> \<exists>ps. get_pairs w = Inr ps"
  by (cases w) auto

lemma merge_step_cases:
  assumes "2 \<le> length word"
  shows "merge_step tbl word = Inr None
    \<or> (\<exists>first second. merge_step tbl word = Inr (Some (merge_pair first second word)))"
proof -
  from assms obtain x rest where w: "word = x # rest" by (cases word) auto
  with assms have "remdups (zip (x # rest) rest) \<noteq> []" by (cases rest) auto
  then obtain p ps where ps: "remdups (zip (x # rest) rest) = p # ps"
    by (cases "remdups (zip (x # rest) rest)") auto
  show ?thesis
    unfolding merge_step_def w
    by (auto simp add: ps min_by_def merge_scan_merge_pair)
qed

lemma merge_loop_returns:
  "2 \<le> length word \<Longrightarrow>
     \<exists>merged. merge_loop tbl word = Inr merged \<and> merged \<noteq> [] \<and> concat merged = concat word"
proof (induction tbl word rule: merge_loop.induct)
  case (1 tbl word)
  from merge_step_cases [OF "1.prems", of tbl]
  show ?case
  proof
    assume "merge_step tbl word = Inr None"
    with "1.prems" show ?thesis by (auto simp: merge_loop.simps [of tbl word])
  next
    assume "\<exists>first second. merge_step tbl word = Inr (Some (merge_pair first second word))"
    then obtain first second
      where st: "merge_step tbl word = Inr (Some (merge_pair first second word))" by blast
    let ?new = "merge_pair first second word"
    have ne: "?new \<noteq> []" using "1.prems" by (auto simp: merge_pair_Nil_iff)
    show ?thesis
    proof (cases "length ?new = 1")
      case True
      with st ne show ?thesis
        by (simp add: merge_loop.simps [of tbl word] concat_merge_pair)
    next
      case False
      with ne have "2 \<le> length ?new" by (cases ?new) (auto simp: Suc_le_eq)
      from "1.IH" [OF st refl False this] st False show ?thesis
        by (simp add: merge_loop.simps [of tbl word] concat_merge_pair)
    qed
  qed
qed

section \<open>The cache of \<open>encode\<close>\<close>

lemma initial_word_length:
  "initial_word orig ver = Inr word \<Longrightarrow>
     (ver = [0, 1] \<and> length word = Suc (length orig)) \<or> (ver = [0, 2] \<and> orig \<noteq> [] \<and> length word = length orig)"
  by (auto simp: initial_word_def chars_def split: if_splits)

lemma initial_word_returns:
  "(ver = [0, 1] \<and> orig \<noteq> []) \<or> (ver = [0, 2] \<and> 2 \<le> length orig) \<Longrightarrow>
     \<exists>word. initial_word orig ver = Inr word \<and> 2 \<le> length word"
  by (cases orig) (auto simp: initial_word_def chars_def)

lemma strip_eow_returns: "merged \<noteq> [] \<Longrightarrow> \<exists>stripped. strip_eow merged = Inr stripped"
  by (simp add: strip_eow_def)

lemma encode_single_char:
  assumes "length orig = 1" and "c orig = None" and "orig \<notin> set gl"
  shows "encode orig tbl rtbl voc sep [0, 2] c gl = Inr ([orig], c)"
proof -
  from assms(1) obtain x where o: "orig = [x]" by (cases orig) auto
  show ?thesis using assms(2,3) unfolding o
    by (simp add: encode_def initial_word_def chars_def)
qed

lemma encode_uncached:
  assumes "c orig = None" and "orig \<notin> set gl"
    and "(ver = [0, 1] \<and> orig \<noteq> []) \<or> (ver = [0, 2] \<and> 2 \<le> length orig)"
  shows "\<exists>word merged stripped. initial_word orig ver = Inr word \<and> 2 \<le> length word
     \<and> merge_loop tbl word = Inr merged \<and> merged \<noteq> [] \<and> concat merged = concat word
     \<and> strip_eow merged = Inr stripped
     \<and> encode orig tbl rtbl voc sep ver c gl =
       (case (case voc of None \<Rightarrow> Inr stripped
              | Some v \<Rightarrow> if v = {} then Inr stripped else check_vocab_and_split stripped rtbl v sep) of
          Inl e \<Rightarrow> Inl e
        | Inr result \<Rightarrow> Inr (result, c(orig \<mapsto> result)))"
proof -
  from initial_word_returns [OF assms(3)] obtain word
    where w: "initial_word orig ver = Inr word" "2 \<le> length word" by blast
  from merge_loop_returns [OF w(2), of tbl] obtain merged
    where m: "merge_loop tbl word = Inr merged" "merged \<noteq> []" "concat merged = concat word" by blast
  from strip_eow_returns [OF m(2)] obtain stripped where s: "strip_eow merged = Inr stripped" by blast
  from w(2) have "word \<noteq> []" by auto
  from get_pairs_Inr [OF this] obtain ps where ps1: "get_pairs word = Inr ps" by blast
  with w(2) get_pairs_Nil_iff [of word] have ps2: "ps \<noteq> []" by auto
  note ps = ps1 ps2
  show ?thesis using assms(1,2) w m s ps
    by (simp add: encode_def)
qed

text \<open>
  C4, as the specification states it, fails: under version 0.2 a call on the one-character word
  \<open>a\<close>, which is not cached and not a glossary, returns \<open>a\<close> and stores nothing.
\<close>

theorem one_char_call_stores_nothing:
  "outcome (encode (u ''a'') lower_codes lower_reverse None (u ''@@'') [0, 2] Map.empty [])
     = Inr [u ''a'']
   \<and> cache_after (encode (u ''a'') lower_codes lower_reverse None (u ''@@'') [0, 2] Map.empty [])
       (u ''a'') = None"
  by (simp add: outcome_def cache_after_def encode_def initial_word_def chars_def u_def)

text \<open>
  C4, amended: a call of \<open>encode\<close> on a word that is not cached and not a glossary, and
  that is non-empty under version 0.1 or has two characters or more under version 0.2,
  stores the sequence it returns in the cache under the string it was called with, and
  leaves the rest of the cache as it was. Without a vocabulary the call does return.
  A later call with that string, whatever else the cache holds by then and whatever
  the other arguments are, returns the stored sequence and leaves the cache alone.
  The key is the argument of \<open>encode\<close>: in \<open>segment\<close> that is a glossary-isolated piece of
  the word, lower-cased when the case feature is on.
\<close>

theorem encode_caches:
  assumes "c orig = None" and "orig \<notin> set gl"
    and "(ver = [0, 1] \<and> orig \<noteq> []) \<or> (ver = [0, 2] \<and> 2 \<le> length orig)"
  shows "((voc = None \<or> voc = Some {}) \<longrightarrow> (\<exists>w. encode orig tbl rtbl voc sep ver c gl = Inr (w, c(orig \<mapsto> w))))
    \<and> (\<forall>w c1. encode orig tbl rtbl voc sep ver c gl = Inr (w, c1) \<longrightarrow>
          c1 = c(orig \<mapsto> w)
          \<and> (\<forall>c2 tbl2 rtbl2 voc2 sep2 ver2 gl2. c2 orig = Some w \<longrightarrow>
                encode orig tbl2 rtbl2 voc2 sep2 ver2 c2 gl2 = Inr (w, c2)))"
proof -
  from encode_uncached [of c orig gl ver tbl rtbl voc sep] assms obtain stripped where
    e: "encode orig tbl rtbl voc sep ver c gl =
       (case (case voc of None \<Rightarrow> Inr stripped
              | Some v \<Rightarrow> if v = {} then Inr stripped else check_vocab_and_split stripped rtbl v sep) of
          Inl e \<Rightarrow> Inl e
        | Inr result \<Rightarrow> Inr (result, c(orig \<mapsto> result)))" by blast
  have later: "c2 orig = Some w \<Longrightarrow> encode orig tbl2 rtbl2 voc2 sep2 ver2 c2 gl2 = Inr (w, c2)"
    for c2 w tbl2 rtbl2 voc2 sep2 ver2 gl2
    by (simp add: encode_def)
  show ?thesis unfolding e using later
    by (auto split: sum.splits option.splits if_splits)
qed

theorem encode_caches_witness:
  "encode (u ''lower'') lower_codes lower_reverse None (u ''@@'') [0, 1] Map.empty []
     = Inr ([u ''low'', u ''e'', u ''r''], [u ''lower'' \<mapsto> [u ''low'', u ''e'', u ''r'']])
   \<and> encode (u ''lower'') [] [] None (u ''@@'') [0, 1]
        [u ''lower'' \<mapsto> [u ''low'', u ''e'', u ''r'']] []
     = Inr ([u ''low'', u ''e'', u ''r''], [u ''lower'' \<mapsto> [u ''low'', u ''e'', u ''r'']])"
  using encode_caches [of Map.empty "u ''lower''" "[]" "[0, 1]" None lower_codes lower_reverse
      "u ''@@''"]
  by (simp add: lower_codes_def encode_def merge_eval str_eval)

section \<open>One-character words under version 0.2\<close>

text \<open>
  C10, as stated, fails for a one-character word that is a glossary: the call stores the
  word in the cache.
\<close>

theorem one_char_glossary_is_cached:
  "cache_after (encode (u ''a'') [] [] None (u ''@@'') [0, 2] Map.empty [u ''a'']) (u ''a'')
     = Some [u ''a'']"
  by (simp add: cache_after_def encode_def)

text \<open>
  C10, amended: under version 0.2, for every one-character word that is not cached and
  not a glossary, \<open>encode\<close> returns the word as its single piece and the cache
  unchanged, whatever the rule table, the reverse table and the vocabulary are: the
  vocabulary is not consulted.
\<close>

theorem encode_one_char:
  assumes "length orig = 1" and "c orig = None" and "orig \<notin> set gl"
  shows "encode orig tbl rtbl voc sep [0, 2] c gl = Inr ([orig], c)"
  using assms by (rule encode_single_char)

theorem encode_one_char_witness:
  "encode (u ''a'') lower_codes lower_reverse (Some {u ''b''}) (u ''@@'') [0, 2] Map.empty [] = Inr ([u ''a''], Map.empty)"
  using encode_one_char [of "u ''a''" Map.empty "[]" lower_codes lower_reverse "Some {u ''b''}" "u ''@@''"]
  by (simp add: u_def)

section \<open>The rule table\<close>

text \<open>A \<open>dict\<close> built from a list of items holds the keys of the items, each with the value
  of its last item.\<close>

lemma dict_set_keys: "fst ` set (dict_set d k v) = insert k (fst ` set d)"
  by (auto simp: dict_set_def image_iff split: if_splits) force+

lemma map_of_dict_set: "map_of (dict_set d k v) = (map_of d)(k \<mapsto> v)"
proof (cases "k \<in> fst ` set d")
  case False
  then have "map_of d k = None" by (simp add: map_of_eq_None_iff)
  with False show ?thesis
    by (auto simp: dict_set_def map_add_def fun_eq_iff split: option.splits)
next
  case True
  have "map_of (map (\<lambda>(k', v'). if k' = k then (k', v) else (k', v')) d) x
          = (if x = k then (if k \<in> fst ` set d then Some v else None) else map_of d x)" for x
    by (induction d) (auto split: if_splits)
  with True show ?thesis by (auto simp: dict_set_def fun_eq_iff)
qed

lemma dict_fold_keys:
  "fst ` set (foldl (\<lambda>d (k, v). dict_set d k v) d0 items) = fst ` set d0 \<union> fst ` set items"
proof (induction items arbitrary: d0)
  case Nil then show ?case by simp
next
  case (Cons a items)
  obtain k v where a: "a = (k, v)" by (cases a)
  show ?case unfolding a by (simp add: Cons.IH dict_set_keys)
qed

lemma dict_of_keys: "fst ` set (dict_of items) = fst ` set items"
  by (simp add: dict_of_def dict_fold_keys)

lemma dict_fold_map_of:
  "map_of (foldl (\<lambda>d (k, v). dict_set d k v) d0 items) = map_of d0 ++ map_of (rev items)"
proof (induction items arbitrary: d0)
  case Nil then show ?case by simp
next
  case (Cons a items)
  obtain k v where a: "a = (k, v)" by (cases a)
  show ?case
    by (auto simp: Cons.IH a map_of_dict_set fun_eq_iff map_add_def split: option.splits)
qed

lemma map_of_dict_of: "map_of (dict_of items) = map_of (rev items)"
  by (simp add: dict_of_def dict_fold_map_of)

lemma map_of_enumerate:
  "map_of (map (\<lambda>(i, code). (code, i)) (zip [n..<n + length rules] rules)) r = Some i
     \<longleftrightarrow> n \<le> i \<and> i < n + length rules \<and> rules ! (i - n) = r \<and> (\<forall>j<i - n. rules ! j \<noteq> r)"
proof (induction rules arbitrary: n)
  case Nil then show ?case by auto
next
  case (Cons a rules)
  have up: "[n..<n + length (a # rules)] = n # [Suc n..<Suc n + length rules]"
    by (simp add: upt_rec)
  show ?case
  proof (cases "a = r")
    case True
    then show ?thesis unfolding up by (auto simp: nth_Cons')
  next
    case False
    have "(Suc n \<le> i \<and> i < Suc n + length rules \<and> rules ! (i - Suc n) = r \<and> (\<forall>j<i - Suc n. rules ! j \<noteq> r))
      \<longleftrightarrow> (n \<le> i \<and> i < n + length (a # rules) \<and> (a # rules) ! (i - n) = r \<and> (\<forall>j<i - n. (a # rules) ! j \<noteq> r))"
      (is "?L \<longleftrightarrow> ?R")
    proof
      assume l: ?L
      then have "i - n = Suc (i - Suc n)" by auto
      with l False show ?R by (auto simp: nth_Cons' less_Suc_eq_0_disj)
    next
      assume r: ?R
      with False have "i \<noteq> n" by (auto simp: nth_Cons')
      with r have e: "i - n = Suc (i - Suc n)" by auto
      with r False show ?L
        by (auto simp: nth_Cons')
    qed
    with False Cons.IH [of "Suc n"] show ?thesis unfolding up by simp
  qed
qed

lemma rule_table_rank:
  "map_of (rule_table rules) r = Some i
     \<longleftrightarrow> i < length rules \<and> rules ! i = r \<and> (\<forall>j<i. rules ! j \<noteq> r)"
  using map_of_enumerate [of 0 rules r i]
  by (simp add: rule_table_def map_of_dict_of enumerate_from0_def)

lemma rule_table_keys: "fst ` set (rule_table rules) = set rules"
proof -
  have "map snd (zip [0..<length rules] rules) = rules"
    by (simp add: map_snd_zip)
  then have "snd ` set (zip [0..<length rules] rules) = set rules"
    by (metis set_map)
  then show ?thesis
    by (simp add: rule_table_def dict_of_keys enumerate_from0_def image_image case_prod_unfold)
qed

lemma reverse_items_returns:
  "\<forall>p \<in> fst ` set tbl. 2 \<le> length p \<Longrightarrow> \<exists>items. reverse_items tbl = Inr items"
proof (induction tbl)
  case Nil then show ?case by simp
next
  case (Cons a tbl)
  obtain p i where a: "a = (p, i)" by (cases a)
  from Cons.prems a have "2 \<le> length p" by simp
  then obtain x y rest where p: "p = x # y # rest"
    by (cases p; cases "tl p") auto
  from Cons show ?case by (auto simp: a p)
qed

lemma BPE_init_table:
  "BPE_init codes_file sep voc gloss cf = Inr self \<Longrightarrow>
     bpe_codes self = rule_table (rule_lines codes_file)"
  by (auto simp: BPE_init_def Let_def split: sum.splits if_splits)

text \<open>The equations that compute \<open>BPE.__init__\<close> on a concrete file.\<close>

lemmas init_eval = BPE_init_def has_header_def readline_def rule_lines_def rule_table_def
  enumerate_from0_def dict_of_def dict_set_def parse_version_def strip_zero_groups_def
  strip_zero_groups_rev.simps py_int_def isdigit_def digits_value_def loaded_version_def

text \<open>A rule file with the pair \<open>(l, o)\<close> on its first and on its third line.\<close>

definition dup_file :: "ustr list" where
  "dup_file = [u ''l o'' @ [10], u ''lo w'' @ [10], u ''l o'' @ [10]]"

text \<open>
  C6: in the rule table of a loaded engine, the rank of a rule is the position of the
  first line of the rule file that holds it, counted from 0 over the rule lines (the
  version header is not one of them); lines that repeat it do not change the rank.
\<close>

theorem first_occurrence_rank:
  assumes "BPE_init codes_file sep voc gloss cf = Inr self"
  shows "map_of (bpe_codes self) r = Some i
     \<longleftrightarrow> i < length (rule_lines codes_file) \<and> rule_lines codes_file ! i = r
         \<and> (\<forall>j<i. rule_lines codes_file ! j \<noteq> r)"
  using BPE_init_table [OF assms] by (simp add: rule_table_rank)

theorem first_occurrence_rank_witness:
  "\<exists>self. BPE_init dup_file (u ''@@'') None None False = Inr self
     \<and> map_of (bpe_codes self) [u ''l'', u ''o''] = Some 0
     \<and> map_of (bpe_codes self) [u ''lo'', u ''w''] = Some 1"
proof -
  obtain self where s: "BPE_init dup_file (u ''@@'') None None False = Inr self"
    by (simp add: dup_file_def init_eval str_eval upt_rec)
  have r: "rule_lines dup_file = [[u ''l'', u ''o''], [u ''lo'', u ''w''], [u ''l'', u ''o'']]"
    by (simp add: dup_file_def init_eval str_eval)
  from first_occurrence_rank [OF s, of "[u ''l'', u ''o'']" 0]
    first_occurrence_rank [OF s, of "[u ''lo'', u ''w'']" 1]
  have "map_of (bpe_codes self) [u ''l'', u ''o''] = Some 0"
    "map_of (bpe_codes self) [u ''lo'', u ''w''] = Some 1"
    by (simp_all add: r u_def)
  with s show ?thesis by blast
qed

section \<open>The version of the rule file\<close>

text \<open>
  C7, as the specification states it, fails: a rule file with the header \<open>#version: 0.3\<close> loads, and
  the engine holds the version \<open>(0, 3)\<close>.
\<close>

theorem version_0_3_loads:
  "loaded_version (BPE_init [u ''#version: 0.3'' @ [10], u ''l o'' @ [10]] (u ''@@'') None None False)
     = Inr [0, 3]"
  by (simp add: init_eval str_eval upt_rec)

text \<open>
  C7, amended: \<open>BPE.__init__\<close> does not compare the version with anything. A file with
  a version header loads with the version its header parses to, 0.1 and 0.2 and every
  other one, when each rule line has two tokens or more. The version is checked by
  \<open>encode\<close>: with a version other than \<open>(0, 1)\<close> and \<open>(0, 2)\<close>, a call on a word that is not
  cached and not a glossary raises \<open>NotImplementedError\<close>.
\<close>

theorem version_checked_by_encode:
  "(has_header codes_file \<and> parse_version (readline codes_file) = Inr ver
      \<and> (\<forall>rule \<in> set (rule_lines codes_file). 2 \<le> length rule)
      \<longrightarrow> loaded_version (BPE_init codes_file sep voc gloss cf) = Inr ver)
   \<and> (ver \<noteq> [0, 1] \<and> ver \<noteq> [0, 2] \<and> c orig = None \<and> orig \<notin> set gl
      \<longrightarrow> encode orig tbl rtbl voc sep ver c gl = Inl NotImplementedError)
   \<and> parse_version (u ''#version: 0.1'' @ [10]) = Inr [0, 1]
   \<and> parse_version (u ''#version: 0.2'' @ [10]) = Inr [0, 2]"
proof (intro conjI impI)
  assume a: "has_header codes_file \<and> parse_version (readline codes_file) = Inr ver
      \<and> (\<forall>rule \<in> set (rule_lines codes_file). 2 \<le> length rule)"
  then have "\<forall>p \<in> fst ` set (rule_table (rule_lines codes_file)). 2 \<le> length p"
    by (simp add: rule_table_keys)
  from reverse_items_returns [OF this] obtain items
    where "reverse_items (rule_table (rule_lines codes_file)) = Inr items" by blast
  with a show "loaded_version (BPE_init codes_file sep voc gloss cf) = Inr ver"
    by (simp add: BPE_init_def loaded_version_def)
next
  assume "ver \<noteq> [0, 1] \<and> ver \<noteq> [0, 2] \<and> c orig = None \<and> orig \<notin> set gl"
  then show "encode orig tbl rtbl voc sep ver c gl = Inl NotImplementedError"
    by (simp add: encode_def initial_word_def)
next
  show "parse_version (u ''#version: 0.1'' @ [10]) = Inr [0, 1]"
    by (simp add: init_eval str_eval)
next
  show "parse_version (u ''#version: 0.2'' @ [10]) = Inr [0, 2]"
    by (simp add: init_eval str_eval)
qed

theorem version_checked_by_encode_witness:
  "loaded_version (BPE_init [u ''#version: 0.3'' @ [10], u ''l o'' @ [10]] (u ''@@'') None None False)
     = Inr [0, 3]
   \<and> encode (u ''lo'') [([u ''l'', u ''o''], 0)] [(u ''lo'', [u ''l'', u ''o''])] None (u ''@@'') [0, 3]
       Map.empty [] = Inl NotImplementedError"
  using version_checked_by_encode [where codes_file = "[u ''#version: 0.3'' @ [10], u ''l o'' @ [10]]"
      and ver = "[0, 3]" and sep = "u ''@@''" and voc = None and gloss = None and cf = False
      and c = Map.empty and orig = "u ''lo''" and gl = "[]" and tbl = "[([u ''l'', u ''o''], 0)]"
      and rtbl = "[(u ''lo'', [u ''l'', u ''o''])]"]
  by (simp add: init_eval str_eval)

section \<open>The serving endpoint\<close>

text \<open>Two models: \<open>a\<close> with the rules \<open>(l, o)\<close> and \<open>(lo, w)\<close>, and after it \<open>b\<close> with no rules;
  and a request for model \<open>a\<close> with the segment \<open>lo\<close>.\<close>

definition model_a :: srv_model where
  "model_a = \<lparr>name = u ''a'', bpe = lower_engine [0, 1]\<rparr>"

definition model_b :: srv_model where
  "model_b = \<lparr>name = u ''b'',
     bpe = (lower_engine [0, 1])\<lparr>bpe_codes := [], bpe_codes_reverse := []\<rparr>\<rparr>"

definition request_a :: request_body where
  "request_a = \<lparr>model = u ''a'', seg = u ''lo''\<rparr>"

text \<open>
  C9 holds for a request that names no configured model, and fails for one that names
  a model that is not the last: \<open>preprocess\<close> runs the engine of the loop variable
  \<open>m\<close>, the last model, not that of \<open>model\<close>. The engine of \<open>a\<close> segments \<open>lo\<close> into \<open>lo\<close>; the
  response holds \<open>l@@ o\<close>, the segmentation by the engine of \<open>b\<close>.
\<close>

theorem preprocess_runs_last_model:
  "outcome (preprocess [model_a, model_b] request_a) = Inr (Res (u ''l@@ o''))
   \<and> outcome (segment (bpe model_a) (seg request_a)) = Inr (u ''lo'')
   \<and> outcome (segment (bpe model_b) (seg request_a)) = Inr (u ''l@@ o'')"
  by (simp add: preprocess_def model_a_def model_b_def request_a_def lower_engine_def
      lower_codes_def engine_eval merge_eval str_eval)

text \<open>A request whose model name no configured model has gets the error value, and no
  exception.\<close>

lemma find_model_None:
  "find_model models requested found = None
     \<longleftrightarrow> found = None \<and> (\<forall>m \<in> set models. name m \<noteq> requested)"
  by (induction models arbitrary: found) auto

lemma preprocess_unknown_model:
  "\<forall>m \<in> set models. name m \<noteq> model body \<Longrightarrow>
     preprocess models body = Inr (Err (u ''no such model''), models)"
proof -
  assume "\<forall>m \<in> set models. name m \<noteq> model body"
  then have "find_model models (model body) None = None"
    by (simp add: find_model_None)
  then show ?thesis by (simp add: preprocess_def)
qed

section \<open>Glossary isolation\<close>

text \<open>\<open>strip\<close> leaves a string without whitespace as it is; the pieces of \<open>split\<close> are made
  of the characters of the string, and joined by the separator they give it back.\<close>

lemma strip_no_space: "\<forall>c \<in> set s. \<not> isspace c \<Longrightarrow> strip s = s"
proof -
  assume a: "\<forall>c \<in> set s. \<not> isspace c"
  then have "dropWhile isspace s = s" by (cases s) auto
  moreover from a have "dropWhile isspace (rev s) = rev s" by (cases "rev s") auto
  ultimately show ?thesis by (simp add: strip_def)
qed

lemma split_sep_acc_Nil: "split_sep_acc sep cur [] = [cur]"
  by (simp add: split_sep_acc.simps [of sep cur "[]"])

lemma split_sep_acc_not_Nil: "split_sep_acc sep cur s \<noteq> []"
proof (induction sep cur s rule: split_sep_acc.induct)
  case (1 sep cur s)
  then show ?case by (simp add: split_sep_acc.simps [of sep cur s])
qed

lemma split_pieces_chars: "p \<in> set (split_sep_acc sep cur s) \<Longrightarrow> set p \<subseteq> set cur \<union> set s"
proof (induction sep cur s rule: split_sep_acc.induct)
  case (1 sep cur s)
  show ?case
  proof (cases "s = []")
    case True
    with "1.prems" show ?thesis by (simp add: split_sep_acc_Nil)
  next
    case ne: False
    show ?thesis
    proof (cases "sep \<noteq> [] \<and> prefix sep s")
      case True
      with ne "1.prems" have "p = cur \<or> p \<in> set (split_sep_acc sep [] (drop (length sep) s))"
        by (simp add: split_sep_acc.simps [of sep cur s])
      then show ?thesis
      proof
        assume "p = cur" then show ?thesis by simp
      next
        assume "p \<in> set (split_sep_acc sep [] (drop (length sep) s))"
        from "1.IH"(1) [OF ne True this] have "set p \<subseteq> set (drop (length sep) s)" by simp
        also have "\<dots> \<subseteq> set s" by (rule set_drop_subset)
        finally show ?thesis by auto
      qed
    next
      case False
      with ne "1.prems" have "p \<in> set (split_sep_acc sep (cur @ [hd s]) (tl s))"
        by (simp add: split_sep_acc.simps [of sep cur s])
      from "1.IH"(2) [OF ne False this] have "set p \<subseteq> set cur \<union> set (hd s # tl s)" by auto
      with ne show ?thesis by simp
    qed
  qed
qed

lemma join_split_sep_acc: "sep \<noteq> [] \<Longrightarrow> join sep (split_sep_acc sep cur s) = cur @ s"
proof (induction sep cur s rule: split_sep_acc.induct)
  case (1 sep cur s)
  show ?case
  proof (cases "s = []")
    case True
    then show ?thesis by (simp add: split_sep_acc_Nil)
  next
    case ne: False
    show ?thesis
    proof (cases "sep \<noteq> [] \<and> prefix sep s")
      case True
      obtain y ys where r: "split_sep_acc sep [] (drop (length sep) s) = y # ys"
        using split_sep_acc_not_Nil [of sep "[]" "drop (length sep) s"]
        by (cases "split_sep_acc sep [] (drop (length sep) s)") auto
      from "1.IH"(1) [OF ne True "1.prems"] r
      have "join sep (y # ys) = drop (length sep) s" by simp
      moreover from True have "sep @ drop (length sep) s = s"
        by (metis append_eq_conv_conj prefix_def)
      ultimately show ?thesis using ne True r
        by (simp add: split_sep_acc.simps [of sep cur s])
    next
      case False
      from "1.IH"(2) [OF ne False "1.prems"] ne False show ?thesis
        by (auto simp add: split_sep_acc.simps [of sep cur s])
    qed
  qed
qed

lemma concat_interleave:
  "splits \<noteq> [] \<Longrightarrow>
     concat (concat (map (\<lambda>split. [split, g]) (butlast splits))) @ last splits = join g splits"
  by (induction g splits rule: join.induct) auto

lemma concat_filter_nonempty: "concat (filter (\<lambda>x. x \<noteq> []) xs) = concat xs"
  by (induction xs) auto

lemma isolate_glossary_fragments:
  assumes "word \<noteq> []" and "\<forall>c \<in> set word. \<not> isspace c" and "glossary \<noteq> []"
  shows "\<exists>frags. isolate_glossary word glossary = Inr frags \<and> [] \<notin> set frags
           \<and> concat frags = word"
proof (cases "word = glossary \<or> \<not> sublist glossary word")
  case True
  with assms(1) show ?thesis by (simp add: isolate_glossary_def)
next
  case False
  then have sub: "sublist glossary word" by simp
  let ?splits = "split_sep_acc glossary [] word"
  let ?X = "concat (map (\<lambda>split. [split, glossary]) (butlast ?splits))"
  have ne: "?splits \<noteq> []" by (rule split_sep_acc_not_Nil)
  have pieces: "\<forall>c \<in> set p. \<not> isspace c" if "p \<in> set ?splits" for p
    using split_pieces_chars [OF that] assms(2) by auto
  have gl: "\<forall>c \<in> set glossary. \<not> isspace c"
    using set_mono_sublist [OF sub] assms(2) by auto
  have X: "\<forall>c \<in> set x. \<not> isspace c" if "x \<in> set ?X" for x
    using that pieces gl by (auto dest: in_set_butlastD)
  then have strip_X: "map strip (filter (\<lambda>segment. segment \<noteq> []) ?X) = filter (\<lambda>segment. segment \<noteq> []) ?X"
    by (intro map_idI strip_no_space) auto
  have last_in: "last ?splits \<in> set ?splits" using ne by simp
  have strip_last: "strip (last ?splits) = last ?splits"
    using pieces [OF last_in] by (rule strip_no_space)
  have whole: "concat ?X @ last ?splits = word"
    using concat_interleave [OF ne, of glossary] join_split_sep_acc [OF assms(3), of "[]" word]
    by simp
  show ?thesis
  proof (cases "last ?splits = []")
    case True
    with False assms(3) strip_X whole show ?thesis
      by (simp add: isolate_glossary_def split_sep_def Let_def concat_filter_nonempty)
  next
    case l: False
    with False assms(3) strip_X strip_last whole show ?thesis
      by (simp add: isolate_glossary_def split_sep_def Let_def concat_filter_nonempty)
  qed
qed

text \<open>
  C8, as the specification states it, fails: for the empty word the result is the list of the
  empty string, and for the word \<open>" USA"\<close> with the glossary \<open>USA\<close> the piece \<open>" "\<close> passes
  the test \<open>segment != ''\<close> and is then stripped to the empty string.
\<close>

theorem isolate_glossary_empty_fragments:
  "isolate_glossary [] (u ''USA'') = Inr [[]]
   \<and> isolate_glossary (u '' USA'') (u ''USA'') = Inr [[], u ''USA'']"
  by (simp add: isolate_glossary_def str_eval sublist_Cons_right)

text \<open>
  C8, amended: for every non-empty word without whitespace, as \<open>segment\<close> passes them
  (the words of \<open>sentence.split()\<close>), and every non-empty glossary, \<open>isolate_glossary\<close>
  returns a list of fragments none of which is the empty string, and the fragments
  concatenated are the word.
\<close>

theorem isolate_glossary_no_empty:
  assumes "word \<noteq> []" and "\<forall>c \<in> set word. \<not> isspace c" and "glossary \<noteq> []"
  shows "\<exists>frags. isolate_glossary word glossary = Inr frags \<and> [] \<notin> set frags
           \<and> concat frags = word"
  using assms by (rule isolate_glossary_fragments)

theorem isolate_glossary_no_empty_witness:
  "isolate_glossary (u ''1934USABUSA'') (u ''USA'') = Inr [u ''1934'', u ''USA'', u ''B'', u ''USA'']
   \<and> [] \<notin> set [u ''1934'', u ''USA'', u ''B'', u ''USA'']"
  using isolate_glossary_no_empty [of "u ''1934USABUSA''" "u ''USA''"]
  by (simp add: isolate_glossary_def str_eval sublist_Cons_right)

section \<open>The vocabulary split\<close>

text \<open>
  What the split leaves of a token. A token that is not final is kept when, with the
  separator, it is in the vocabulary, or when the lookup of \<open>recursive_split\<close> for it
  fails: the reverse table has no pair under the token. For the final token the
  vocabulary test is without the separator and the lookup is under the token followed
  by \<open></w>\<close>.
\<close>

definition nonfinal_ok :: "codes_reverse \<Rightarrow> ustr set \<Rightarrow> ustr \<Rightarrow> ustr \<Rightarrow> bool" where
  "nonfinal_ok rtbl V sep t \<longleftrightarrow> t @ sep \<in> V \<or> split_lookup rtbl t False = None"

definition final_ok :: "codes_reverse \<Rightarrow> ustr set \<Rightarrow> ustr \<Rightarrow> bool" where
  "final_ok rtbl V t \<longleftrightarrow> t \<in> V \<or> split_lookup rtbl t True = None"

definition items_ok :: "codes_reverse \<Rightarrow> ustr set \<Rightarrow> ustr \<Rightarrow> bool \<Rightarrow> ustr list \<Rightarrow> bool" where
  "items_ok rtbl V sep final items \<longleftrightarrow>
     items \<noteq> [] \<and> list_all (nonfinal_ok rtbl V sep) (butlast items)
     \<and> (if final then final_ok rtbl V (last items) else nonfinal_ok rtbl V sep (last items))"

lemma items_ok_nonfinal_all:
  "items_ok rtbl V sep False items \<Longrightarrow> list_all (nonfinal_ok rtbl V sep) items"
  by (cases items rule: rev_cases) (auto simp: items_ok_def)

lemma items_ok_append:
  "items_ok rtbl V sep False ls \<Longrightarrow> items_ok rtbl V sep final rs \<Longrightarrow>
     items_ok rtbl V sep final (ls @ rs)"
  using items_ok_nonfinal_all [of rtbl V sep ls]
  by (auto simp: items_ok_def butlast_append)

lemma recursive_split_gen_ok:
  assumes "recursive_split_gen sg rtbl V sep final = Some items"
  shows "items_ok rtbl V sep final items"
proof (rule recursive_split_gen.raw_induct
    [where P = "\<lambda>sg rtbl V sep final items. items_ok rtbl V sep final items", OF _ assms])
  fix rec sg rtbl V sep final items
  assume IH: "\<And>sg rtbl V sep final items.
      rec sg rtbl V sep final = Some items \<Longrightarrow> items_ok rtbl V sep final items"
    and body: "(case split_lookup rtbl sg final of
        None \<Rightarrow> Some [sg]
      | Some (left, right) \<Rightarrow>
          Option.bind
            (if left @ sep \<in> V then Some [left] else rec left rtbl V sep False)
            (\<lambda>ls. Option.bind
               (if (final \<and> right \<in> V) \<or> (\<not> final \<and> right @ sep \<in> V)
                then Some [right]
                else rec right rtbl V sep final)
               (\<lambda>rs. Some (ls @ rs)))) = Some items"
  show "items_ok rtbl V sep final items"
  proof (cases "split_lookup rtbl sg final")
    case None
    with body have "items = [sg]" by simp
    with None show ?thesis
      by (cases final) (simp_all add: items_ok_def nonfinal_ok_def final_ok_def)
  next
    case (Some lr)
    obtain left right where lr: "lr = (left, right)" by (cases lr)
    from body Some lr obtain ls rs where
      ls: "(if left @ sep \<in> V then Some [left] else rec left rtbl V sep False) = Some ls"
      and rs: "(if (final \<and> right \<in> V) \<or> (\<not> final \<and> right @ sep \<in> V) then Some [right]
                else rec right rtbl V sep final) = Some rs"
      and items: "items = ls @ rs"
      by (auto simp: bind_eq_Some_conv)
    have "items_ok rtbl V sep False ls"
    proof (cases "left @ sep \<in> V")
      case True
      with ls have "ls = [left]" by simp
      with True show ?thesis by (simp add: items_ok_def nonfinal_ok_def)
    next
      case False
      with ls IH show ?thesis by simp
    qed
    moreover have "items_ok rtbl V sep final rs"
    proof (cases "(final \<and> right \<in> V) \<or> (\<not> final \<and> right @ sep \<in> V)")
      case True
      with rs have "rs = [right]" by simp
      with True show ?thesis by (auto simp: items_ok_def nonfinal_ok_def final_ok_def)
    next
      case False
      with rs IH show ?thesis by simp
    qed
    ultimately show ?thesis unfolding items by (rule items_ok_append)
  qed
qed

text \<open>
  Two conditions on a reverse table. It is well formed when every pair in it is a
  split of its key into two non-empty parts, as in every table that \<open>BPE.__init__\<close>
  builds. The marker is atomic in it when no pair splits the marker \<open></w>\<close> at the end
  of its key: the second part ends with the whole marker.
\<close>

definition wf_reverse :: "codes_reverse \<Rightarrow> bool" where
  "wf_reverse rtbl =
     list_all (\<lambda>(k, v). case v of [l, r] \<Rightarrow> k = l @ r \<and> l \<noteq> [] \<and> r \<noteq> [] | _ \<Rightarrow> True) rtbl"

definition marker_atomic :: "codes_reverse \<Rightarrow> bool" where
  "marker_atomic rtbl =
     list_all (\<lambda>(k, v). case v of [l, r] \<Rightarrow> \<not> suffix eow k \<or> suffix eow r | _ \<Rightarrow> True) rtbl"

lemma unpack_pair_Some: "unpack_pair v = Some (l, r) \<longleftrightarrow> v = Some [l, r]"
  by (auto simp: unpack_pair_def split: option.splits list.splits)

lemma wf_reverseD:
  "wf_reverse rtbl \<Longrightarrow> map_of rtbl k = Some [l, r] \<Longrightarrow> k = l @ r \<and> l \<noteq> [] \<and> r \<noteq> []"
  by (auto simp: wf_reverse_def list_all_iff dest!: map_of_SomeD)

lemma marker_atomicD:
  "marker_atomic rtbl \<Longrightarrow> map_of rtbl k = Some [l, r] \<Longrightarrow> suffix eow k \<Longrightarrow> suffix eow r"
  by (auto simp: marker_atomic_def list_all_iff dest!: map_of_SomeD)

lemma lookup_nonfinal:
  assumes "wf_reverse rtbl" and "split_lookup rtbl sg False = Some (l, r)"
  shows "sg = l @ r \<and> l \<noteq> [] \<and> r \<noteq> []"
  using assms wf_reverseD [of rtbl sg l r] by (simp add: split_lookup_def unpack_pair_Some)

lemma length_eow: "length eow = 4"
  by (simp add: eow_def u_def)

lemma lookup_final:
  assumes "wf_reverse rtbl" and "split_lookup rtbl sg True = Some (l, r')"
  shows "\<exists>r. sg @ eow = l @ r \<and> l \<noteq> [] \<and> r \<noteq> [] \<and> r' = take (length r - 4) r
           \<and> map_of rtbl (sg @ eow) = Some [l, r]"
proof -
  from assms(2) obtain r where r: "map_of rtbl (sg @ eow) = Some [l, r]"
    and r': "r' = take (length r - 4) r"
    by (auto simp: split_lookup_def unpack_pair_Some split: option.splits)
  with wf_reverseD [OF assms(1) r] show ?thesis by auto
qed

lemma lookup_final_shorter:
  assumes "wf_reverse rtbl" and "split_lookup rtbl sg True = Some (l, r')" and "sg \<noteq> []"
  shows "length r' < length sg"
proof -
  from lookup_final [OF assms(1,2)] obtain r where
    e: "sg @ eow = l @ r" and l: "l \<noteq> []" and r': "r' = take (length r - 4) r" by blast
  from e have "length sg + 4 = length l + length r"
    by (metis length_append length_eow)
  with l assms(3) show ?thesis unfolding r' by (cases l; cases sg) auto
qed

lemma lookup_final_atomic:
  assumes "wf_reverse rtbl" and "marker_atomic rtbl"
    and "split_lookup rtbl sg True = Some (l, r')"
  shows "sg = l @ r'"
proof -
  from lookup_final [OF assms(1,3)] obtain r where
    e: "sg @ eow = l @ r" and r': "r' = take (length r - 4) r"
    and m: "map_of rtbl (sg @ eow) = Some [l, r]" by blast
  from marker_atomicD [OF assms(2) m] have "suffix eow r" by (simp add: suffix_def)
  then obtain x where x: "r = x @ eow" by (auto simp: suffix_def)
  with r' have "r' = x" by (simp add: length_eow)
  with e x show ?thesis by simp
qed

lemma no_marker_entry:
  assumes "wf_reverse rtbl" and "marker_atomic rtbl"
  shows "split_lookup rtbl [] True = None"
proof (cases "split_lookup rtbl [] True")
  case None then show ?thesis .
next
  case (Some lr)
  obtain l r' where lr: "lr = (l, r')" by (cases lr)
  from lookup_final_atomic [OF assms Some [unfolded lr]] have "l = []" by simp
  moreover from lookup_final [OF assms(1) Some [unfolded lr]] have "l \<noteq> []" by blast
  ultimately show ?thesis by simp
qed

text \<open>The split returns.\<close>

lemma recursive_split_nonfinal_returns:
  assumes "wf_reverse rtbl"
  shows "\<exists>items. recursive_split_gen sg rtbl V sep False = Some items"
proof (induction sg rule: measure_induct_rule [where f = length])
  case (less sg)
  show ?case
  proof (cases "split_lookup rtbl sg False")
    case None
    then show ?thesis by (simp add: recursive_split_gen.simps [of sg])
  next
    case (Some lr)
    obtain l r where lr: "lr = (l, r)" by (cases lr)
    from lookup_nonfinal [OF assms Some [unfolded lr]]
    have "length l < length sg" "length r < length sg" by auto
    from less.IH [OF this(1)] less.IH [OF this(2)] obtain ls rs where
      "recursive_split_gen l rtbl V sep False = Some ls"
      "recursive_split_gen r rtbl V sep False = Some rs" by blast
    with Some lr show ?thesis by (simp add: recursive_split_gen.simps [of sg])
  qed
qed

lemma recursive_split_final_returns:
  assumes "wf_reverse rtbl" and "split_lookup rtbl [] True = None"
  shows "\<exists>items. recursive_split_gen sg rtbl V sep True = Some items"
proof (induction sg rule: measure_induct_rule [where f = length])
  case (less sg)
  show ?case
  proof (cases "split_lookup rtbl sg True")
    case None
    then show ?thesis by (simp add: recursive_split_gen.simps [of sg])
  next
    case (Some lr)
    obtain l r where lr: "lr = (l, r)" by (cases lr)
    from Some assms(2) have "sg \<noteq> []" by auto
    from lookup_final_shorter [OF assms(1) Some [unfolded lr] this]
    have "length r < length sg" .
    from less.IH [OF this] recursive_split_nonfinal_returns [OF assms(1), of l V sep]
    obtain ls rs where
      "recursive_split_gen l rtbl V sep False = Some ls"
      "recursive_split_gen r rtbl V sep True = Some rs" by blast
    with Some lr show ?thesis by (simp add: recursive_split_gen.simps [of sg])
  qed
qed

text \<open>The items of the split concatenated are the segment.\<close>

lemma recursive_split_gen_concat:
  assumes "recursive_split_gen sg rtbl V sep final = Some items"
  shows "wf_reverse rtbl \<and> (final \<longrightarrow> marker_atomic rtbl) \<longrightarrow> concat items = sg"
proof (rule recursive_split_gen.raw_induct
    [where P = "\<lambda>sg rtbl V sep final items.
       wf_reverse rtbl \<and> (final \<longrightarrow> marker_atomic rtbl) \<longrightarrow> concat items = sg", OF _ assms])
  fix rec sg rtbl V sep final items
  assume IH: "\<And>sg rtbl V sep final items.
      rec sg rtbl V sep final = Some items \<Longrightarrow>
      wf_reverse rtbl \<and> (final \<longrightarrow> marker_atomic rtbl) \<longrightarrow> concat items = sg"
    and body: "(case split_lookup rtbl sg final of
        None \<Rightarrow> Some [sg]
      | Some (left, right) \<Rightarrow>
          Option.bind
            (if left @ sep \<in> V then Some [left] else rec left rtbl V sep False)
            (\<lambda>ls. Option.bind
               (if (final \<and> right \<in> V) \<or> (\<not> final \<and> right @ sep \<in> V)
                then Some [right]
                else rec right rtbl V sep final)
               (\<lambda>rs. Some (ls @ rs)))) = Some items"
  show "wf_reverse rtbl \<and> (final \<longrightarrow> marker_atomic rtbl) \<longrightarrow> concat items = sg"
  proof
    assume wf: "wf_reverse rtbl \<and> (final \<longrightarrow> marker_atomic rtbl)"
    show "concat items = sg"
    proof (cases "split_lookup rtbl sg final")
      case None
      with body show ?thesis by auto
    next
      case (Some lr)
      obtain left right where lr: "lr = (left, right)" by (cases lr)
      from body Some lr obtain ls rs where
        ls: "(if left @ sep \<in> V then Some [left] else rec left rtbl V sep False) = Some ls"
        and rs: "(if (final \<and> right \<in> V) \<or> (\<not> final \<and> right @ sep \<in> V) then Some [right]
                  else rec right rtbl V sep final) = Some rs"
        and items: "items = ls @ rs"
        by (auto simp: bind_eq_Some_conv)
      have l: "concat ls = left"
      proof (cases "left @ sep \<in> V")
        case True with ls show ?thesis by auto
      next
        case False with ls IH [of left rtbl V sep False ls] wf show ?thesis by simp
      qed
      have r: "concat rs = right"
      proof (cases "(final \<and> right \<in> V) \<or> (\<not> final \<and> right @ sep \<in> V)")
        case True with rs show ?thesis by auto
      next
        case False with rs IH [of right rtbl V sep final rs] wf show ?thesis by simp
      qed
      have "sg = left @ right"
      proof (cases final)
        case True
        with wf Some lr lookup_final_atomic [of rtbl sg left right] show ?thesis by simp
      next
        case False
        with wf Some lr lookup_nonfinal [of rtbl sg left right] show ?thesis by simp
      qed
      with l r items show ?thesis by simp
    qed
  qed
qed

lemma recursive_split_Inr:
  "recursive_split sg rtbl V sep final = Inr items
     \<longleftrightarrow> recursive_split_gen sg rtbl V sep final = Some items"
  by (simp add: recursive_split_def split: option.splits)

lemma check_segments_ok:
  "check_segments segs rtbl V sep = Inr out \<Longrightarrow> list_all (nonfinal_ok rtbl V sep) out"
proof (induction segs arbitrary: out)
  case Nil then show ?case by simp
next
  case (Cons sg segs)
  from Cons.prems obtain items rest where
    i: "(if sg @ sep \<in> V then Inr [sg] else recursive_split sg rtbl V sep False) = Inr items"
    and r: "check_segments segs rtbl V sep = Inr rest" and out: "out = items @ rest"
    by (auto split: sum.splits)
  have "list_all (nonfinal_ok rtbl V sep) items"
  proof (cases "sg @ sep \<in> V")
    case True
    with i show ?thesis by (auto simp: nonfinal_ok_def)
  next
    case False
    with i have "recursive_split_gen sg rtbl V sep False = Some items"
      by (simp add: recursive_split_Inr)
    from recursive_split_gen_ok [OF this] show ?thesis by (rule items_ok_nonfinal_all)
  qed
  with Cons.IH [OF r] out show ?case by simp
qed

lemma check_segments_concat:
  "wf_reverse rtbl \<Longrightarrow> check_segments segs rtbl V sep = Inr out \<Longrightarrow> concat out = concat segs"
proof (induction segs arbitrary: out)
  case Nil then show ?case by simp
next
  case (Cons sg segs)
  from Cons.prems(2) obtain items rest where
    i: "(if sg @ sep \<in> V then Inr [sg] else recursive_split sg rtbl V sep False) = Inr items"
    and r: "check_segments segs rtbl V sep = Inr rest" and out: "out = items @ rest"
    by (auto split: sum.splits)
  have "concat items = sg"
  proof (cases "sg @ sep \<in> V")
    case True
    with i show ?thesis by auto
  next
    case False
    with i have "recursive_split_gen sg rtbl V sep False = Some items"
      by (simp add: recursive_split_Inr)
    from recursive_split_gen_concat [OF this] Cons.prems(1) show ?thesis by simp
  qed
  with Cons.IH [OF Cons.prems(1) r] out show ?case by simp
qed

lemma check_segments_returns:
  "wf_reverse rtbl \<Longrightarrow> \<exists>out. check_segments segs rtbl V sep = Inr out"
proof (induction segs)
  case Nil then show ?case by simp
next
  case (Cons sg segs)
  from recursive_split_nonfinal_returns [OF Cons.prems, of sg V sep] obtain items
    where "recursive_split sg rtbl V sep False = Inr items"
    by (auto simp: recursive_split_Inr)
  with Cons.IH [OF Cons.prems] show ?case by auto
qed

lemma check_vocab_and_split_ok:
  assumes "check_vocab_and_split orig rtbl V sep = Inr out"
  shows "items_ok rtbl V sep True out"
proof -
  from assms obtain pre items where
    p: "check_segments (butlast orig) rtbl V sep = Inr pre"
    and i: "(if last orig \<in> V then Inr [last orig]
             else recursive_split (last orig) rtbl V sep True) = Inr items"
    and out: "out = pre @ items"
    by (auto simp: check_vocab_and_split_def split: sum.splits if_splits)
  have "items_ok rtbl V sep True items"
  proof (cases "last orig \<in> V")
    case True
    with i show ?thesis by (auto simp: items_ok_def final_ok_def)
  next
    case False
    with i have "recursive_split_gen (last orig) rtbl V sep True = Some items"
      by (simp add: recursive_split_Inr)
    then show ?thesis by (rule recursive_split_gen_ok)
  qed
  with check_segments_ok [OF p] show ?thesis unfolding out
    by (auto simp: items_ok_def butlast_append)
qed

lemma check_vocab_and_split_returns:
  assumes "orig \<noteq> []" and "wf_reverse rtbl" and "split_lookup rtbl [] True = None"
  shows "\<exists>out. check_vocab_and_split orig rtbl V sep = Inr out"
proof -
  from check_segments_returns [OF assms(2), of "butlast orig" V sep] obtain pre
    where p: "check_segments (butlast orig) rtbl V sep = Inr pre" by blast
  from recursive_split_final_returns [OF assms(2,3), of "last orig" V sep] obtain items
    where "recursive_split (last orig) rtbl V sep True = Inr items"
    by (auto simp: recursive_split_Inr)
  with p assms(1) show ?thesis by (auto simp: check_vocab_and_split_def)
qed

lemma check_vocab_and_split_concat:
  assumes "wf_reverse rtbl" and "marker_atomic rtbl"
    and "check_vocab_and_split orig rtbl V sep = Inr out"
  shows "concat out = concat orig"
proof -
  from assms(3) obtain pre items where
    p: "check_segments (butlast orig) rtbl V sep = Inr pre"
    and i: "(if last orig \<in> V then Inr [last orig]
             else recursive_split (last orig) rtbl V sep True) = Inr items"
    and out: "out = pre @ items" and ne: "orig \<noteq> []"
    by (auto simp: check_vocab_and_split_def split: sum.splits if_splits)
  have "concat items = last orig"
  proof (cases "last orig \<in> V")
    case True
    with i show ?thesis by auto
  next
    case False
    with i have "recursive_split_gen (last orig) rtbl V sep True = Some items"
      by (simp add: recursive_split_Inr)
    from recursive_split_gen_concat [OF this] assms(1,2) show ?thesis by simp
  qed
  moreover have "concat orig = concat (butlast orig) @ last orig"
    using ne by (metis append_butlast_last_id concat.simps(1) concat.simps(2) concat_append append_Nil2)
  ultimately show ?thesis using check_segments_concat [OF assms(1) p] out by simp
qed

lemmas split_eval = check_vocab_and_split_def recursive_split_def recursive_split_gen.simps
  split_lookup_def unpack_pair_def

text \<open>
  C5, as the specification states it, fails for the final token: under version 0.1 with the one rule
  \<open>(a, b)\<close> and a vocabulary without \<open>ab\<close>, the word \<open>ab\<close> is emitted as the one token
  \<open>ab\<close>, which is not in the vocabulary and has the entry \<open>(a, b)\<close> in the reverse table.
  The lookup for a final token is under the token followed by \<open></w>\<close>, and there is no
  such key.
\<close>

theorem final_token_with_reverse_entry:
  "outcome (encode (u ''ab'') [([u ''a'', u ''b''], 0)] [(u ''ab'', [u ''a'', u ''b''])]
      (Some {u ''x''}) (u ''@@'') [0, 1] Map.empty []) = Inr [u ''ab'']
   \<and> u ''ab'' \<notin> {u ''x''}
   \<and> map_of [(u ''ab'', [u ''a'', u ''b''])] (u ''ab'') = Some [u ''a'', u ''b'']"
  by (simp add: engine_eval merge_eval str_eval split_eval)

text \<open>
  C5, amended: of the tokens that \<open>check_vocab_and_split\<close> returns, every one but the
  last is, with the separator, in the vocabulary, or the reverse table has no pair
  under it; the last is in the vocabulary, or the reverse table has no pair under
  the token followed by \<open></w>\<close>. The call returns, for a non-empty word, whenever the
  reverse table is well formed and has no pair under \<open></w>\<close> itself.
\<close>

theorem vocab_split_tokens:
  "(\<forall>out. check_vocab_and_split orig rtbl V sep = Inr out \<longrightarrow>
      out \<noteq> []
      \<and> (\<forall>t \<in> set (butlast out). t @ sep \<in> V \<or> split_lookup rtbl t False = None)
      \<and> (last out \<in> V \<or> split_lookup rtbl (last out) True = None))
   \<and> (orig \<noteq> [] \<and> wf_reverse rtbl \<and> split_lookup rtbl [] True = None \<longrightarrow>
        (\<exists>out. check_vocab_and_split orig rtbl V sep = Inr out))"
proof (intro conjI allI impI)
  fix out
  assume "check_vocab_and_split orig rtbl V sep = Inr out"
  from check_vocab_and_split_ok [OF this]
  show "out \<noteq> []"
    and "\<forall>t \<in> set (butlast out). t @ sep \<in> V \<or> split_lookup rtbl t False = None"
    and "last out \<in> V \<or> split_lookup rtbl (last out) True = None"
    by (auto simp: items_ok_def list_all_iff nonfinal_ok_def final_ok_def)
next
  assume "orig \<noteq> [] \<and> wf_reverse rtbl \<and> split_lookup rtbl [] True = None"
  then show "\<exists>out. check_vocab_and_split orig rtbl V sep = Inr out"
    using check_vocab_and_split_returns [of orig rtbl V sep] by simp
qed

theorem vocab_split_tokens_witness:
  "check_vocab_and_split [u ''low'', u ''er''] 
      [(u ''lo'', [u ''l'', u ''o'']), (u ''low'', [u ''lo'', u ''w'']), (u ''er</w>'', [u ''e'', u ''r</w>''])]
      {u ''lo@@'', u ''e@@'', u ''r''} (u ''@@'')
     = Inr [u ''lo'', u ''w'', u ''e'', u ''r'']
   \<and> u ''lo@@'' \<in> {u ''lo@@'', u ''e@@'', u ''r''}
   \<and> split_lookup [(u ''lo'', [u ''l'', u ''o'']), (u ''low'', [u ''lo'', u ''w'']), (u ''er</w>'', [u ''e'', u ''r</w>''])]
        (u ''w'') False = None
   \<and> u ''r'' \<in> {u ''lo@@'', u ''e@@'', u ''r''}"
  using vocab_split_tokens [of "[u ''low'', u ''er'']"
      "[(u ''lo'', [u ''l'', u ''o'']), (u ''low'', [u ''lo'', u ''w'']), (u ''er</w>'', [u ''e'', u ''r</w>''])]"
      "{u ''lo@@'', u ''e@@'', u ''r''}" "u ''@@''"]
  by (simp add: split_eval str_eval wf_reverse_def)

section \<open>The round trip of \<open>encode\<close>\<close>

text \<open>The last symbol of the word keeps the marker at its end through every merge.\<close>

lemma merge_pair_last_suffix:
  "w \<noteq> [] \<Longrightarrow> suffix s (last w) \<Longrightarrow> suffix s (last (merge_pair first second w))"
proof (induction first second w rule: merge_pair.induct)
  case (1 first second) then show ?case by simp
next
  case (2 first second x) then show ?case by simp
next
  case (3 first second x y ys)
  show ?case
  proof (cases "x = first \<and> y = second")
    case True
    show ?thesis
    proof (cases "ys = []")
      case e: True
      with True "3.prems" show ?thesis by (auto simp: suffix_def)
    next
      case ne: False
      with True "3.IH"(1) "3.prems" show ?thesis by (simp add: merge_pair_Nil_iff)
    qed
  next
    case False
    with "3.IH"(2) "3.prems" show ?thesis by (auto simp: merge_pair_Nil_iff)
  qed
qed

lemma merge_loop_invariant:
  assumes "2 \<le> length word"
    and "\<And>first second w. I w \<Longrightarrow> I (merge_pair first second w)"
    and "I word"
  shows "\<exists>merged. merge_loop tbl word = Inr merged \<and> I merged"
  using assms(1,3)
proof (induction tbl word rule: merge_loop.induct)
  case (1 tbl word)
  from merge_step_cases [OF "1.prems"(1), of tbl]
  show ?case
  proof
    assume "merge_step tbl word = Inr None"
    with "1.prems" show ?thesis by (auto simp: merge_loop.simps [of tbl word])
  next
    assume "\<exists>first second. merge_step tbl word = Inr (Some (merge_pair first second word))"
    then obtain first second
      where st: "merge_step tbl word = Inr (Some (merge_pair first second word))" by blast
    let ?new = "merge_pair first second word"
    have ne: "?new \<noteq> []" using "1.prems"(1) by (auto simp: merge_pair_Nil_iff)
    have inv: "I ?new" using "1.prems"(2) by (rule assms(2))
    show ?thesis
    proof (cases "length ?new = 1")
      case True
      with st inv show ?thesis by (simp add: merge_loop.simps [of tbl word])
    next
      case False
      with ne have "2 \<le> length ?new" by (cases ?new) (auto simp: Suc_le_eq)
      from "1.IH" [OF st refl False this inv] st False show ?thesis
        by (simp add: merge_loop.simps [of tbl word])
    qed
  qed
qed

lemma merge_loop_marker:
  assumes "2 \<le> length word" and "suffix eow (last word)"
  shows "\<exists>merged. merge_loop tbl word = Inr merged \<and> merged \<noteq> []
           \<and> concat merged = concat word \<and> suffix eow (last merged)"
proof -
  let ?I = "\<lambda>w. w \<noteq> [] \<and> concat w = concat word \<and> suffix eow (last w)"
  have "\<exists>merged. merge_loop tbl word = Inr merged \<and> ?I merged"
  proof (rule merge_loop_invariant [OF assms(1)])
    show "?I (merge_pair first second w)" if "?I w" for first second w
      using that by (simp add: merge_pair_Nil_iff concat_merge_pair merge_pair_last_suffix)
    show "?I word" using assms by auto
  qed
  then show ?thesis by blast
qed

text \<open>Removing the marker from a string that holds it only at its end.\<close>

lemma not_prefix_eow:
  assumes "x \<noteq> []" and "\<not> sublist eow x"
  shows "\<not> prefix eow (x @ eow)"
proof
  assume p: "prefix eow (x @ eow)"
  show False
  proof (cases "length x < 4")
    case True
    then consider a where "x = [a]" | a b where "x = [a, b]" | a b c where "x = [a, b, c]"
      using assms(1)
      by (cases x; cases "tl x"; cases "tl (tl x)"; cases "tl (tl (tl x))") auto
    then show False using p by cases (auto simp: eow_def u_def)
  next
    case False
    with p have "prefix eow x"
      by (metis length_eow not_less prefix_length_prefix prefixI)
    then have "sublist eow x" by (rule prefix_imp_sublist)
    with assms(2) show False by simp
  qed
qed

lemma replace_marker: "\<not> sublist eow x \<Longrightarrow> replace_ne eow [] (x @ eow) = x"
proof (induction x)
  case Nil
  have "eow \<noteq> []" by (simp add: eow_def u_def)
  then show ?case
    by (simp add: replace_ne.simps [of eow "[]" eow] replace_ne.simps [of eow "[]" "[]"])
next
  case (Cons a x)
  from Cons.prems have nx: "\<not> sublist eow x" by (auto simp: sublist_Cons_right)
  from not_prefix_eow [OF _ Cons.prems] have "\<not> prefix eow ((a # x) @ eow)" by simp
  then show ?case using Cons.IH [OF nx]
    by (simp add: replace_ne.simps [of eow "[]" "a # x @ eow"])
qed

lemma strip_eow_round_trip:
  assumes "merged \<noteq> []" and "concat merged = orig @ eow" and "suffix eow (last merged)"
    and "\<not> sublist eow orig"
  shows "\<exists>stripped. strip_eow merged = Inr stripped \<and> concat stripped = orig"
proof -
  from assms(3) obtain x where x: "last merged = x @ eow" by (auto simp: suffix_def)
  from assms(1) have "concat merged = concat (butlast merged) @ last merged"
    by (metis append_butlast_last_id concat.simps(1) concat.simps(2) concat_append append_Nil2)
  with assms(2) x have o: "orig = concat (butlast merged) @ x" by simp
  have ne: "eow \<noteq> []" by (simp add: eow_def u_def)
  show ?thesis
  proof (cases "last merged = eow")
    case True
    with x have "x = []" by simp
    with True assms(1) o show ?thesis by (simp add: strip_eow_def)
  next
    case False
    from o have "suffix x orig" by (simp add: suffix_def)
    then have "sublist x orig" by (rule suffix_imp_sublist)
    with assms(4) have "\<not> sublist eow x" using sublist_order.order_trans by blast
    from replace_marker [OF this] x ne have "replace (last merged) eow [] = x"
      by (simp add: replace_def)
    with False assms(1,3) o show ?thesis by (simp add: strip_eow_def)
  qed
qed

lemma concat_chars: "concat (chars s) = s"
  by (induction s) (auto simp: chars_def)

lemma initial_word_concat:
  assumes "initial_word orig ver = Inr word"
  shows "concat word = orig @ eow \<and> suffix eow (last word)"
proof (cases "ver = [0, 1]")
  case True
  with assms have "word = chars orig @ [eow]" by (simp add: initial_word_def)
  then show ?thesis by (simp add: concat_chars)
next
  case False
  with assms have w: "word = chars (butlast orig) @ [[last orig] @ eow]" and ne: "orig \<noteq> []"
    by (auto simp: initial_word_def split: if_splits)
  from ne have "butlast orig @ [last orig] = orig" by simp
  then have "concat word = orig @ eow" unfolding w
    by (simp add: concat_chars)
  with w show ?thesis by (simp add: suffix_def)
qed

text \<open>A cache is sound when every sequence it holds for a word without the marker
  concatenates to that word. The empty cache is, and \<open>encode\<close> keeps a cache so.\<close>

definition cache_sound :: "cache \<Rightarrow> bool" where
  "cache_sound c \<longleftrightarrow> (\<forall>w toks. c w = Some toks \<longrightarrow> sublist eow w \<or> concat toks = w)"

lemma cache_sound_update:
  "cache_sound c \<Longrightarrow> concat toks = w \<Longrightarrow> cache_sound (c(w \<mapsto> toks))"
  by (auto simp: cache_sound_def)

lemma cache_sound_empty: "cache_sound Map.empty"
  by (simp add: cache_sound_def)

lemma encode_round_trip_aux:
  assumes ver: "ver = [0, 1] \<or> ver = [0, 2]" and ne: "orig \<noteq> []"
    and nm: "\<not> sublist eow orig" and cs: "cache_sound c"
    and voc: "voc = None \<or> voc = Some {} \<or> (wf_reverse rtbl \<and> marker_atomic rtbl)"
  shows "\<exists>toks c1. encode orig tbl rtbl voc sep ver c gl = Inr (toks, c1)
           \<and> concat toks = orig \<and> cache_sound c1"
proof (cases "c orig")
  case (Some cached)
  with cs nm have "concat cached = orig" by (auto simp: cache_sound_def)
  with Some cs show ?thesis by (simp add: encode_def)
next
  case None
  show ?thesis
  proof (cases "orig \<in> set gl")
    case True
    with None cs show ?thesis by (simp add: encode_def cache_sound_update)
  next
    case False
    show ?thesis
    proof (cases "ver = [0, 2] \<and> length orig = 1")
      case True
      with encode_single_char [of orig c gl tbl rtbl voc sep] None False cs show ?thesis by simp
    next
      case one: False
      with ver ne have cond: "(ver = [0, 1] \<and> orig \<noteq> []) \<or> (ver = [0, 2] \<and> 2 \<le> length orig)"
        by (cases orig; cases "tl orig") auto
      from encode_uncached [of c orig gl ver tbl rtbl voc sep] None False cond
      obtain word merged stripped where
        w: "initial_word orig ver = Inr word" "2 \<le> length word"
        and m: "merge_loop tbl word = Inr merged"
        and s: "strip_eow merged = Inr stripped"
        and e: "encode orig tbl rtbl voc sep ver c gl =
          (case (case voc of None \<Rightarrow> Inr stripped
                 | Some v \<Rightarrow> if v = {} then Inr stripped
                     else check_vocab_and_split stripped rtbl v sep) of
             Inl e \<Rightarrow> Inl e
           | Inr result \<Rightarrow> Inr (result, c(orig \<mapsto> result)))" by blast
      from initial_word_concat [OF w(1)] have wc: "concat word = orig @ eow"
        and ws: "suffix eow (last word)" by auto
      from merge_loop_marker [OF w(2) ws, of tbl] m
      have mm: "merged \<noteq> []" "concat merged = orig @ eow" "suffix eow (last merged)"
        using wc by auto
      from strip_eow_round_trip [OF mm nm] s have sc: "concat stripped = orig" by auto
      with ne have sne: "stripped \<noteq> []" by auto
      have "\<exists>result. (case voc of None \<Rightarrow> Inr stripped
                 | Some v \<Rightarrow> if v = {} then Inr stripped
                     else check_vocab_and_split stripped rtbl v sep) = Inr result
              \<and> concat result = orig"
      proof (cases "voc = None \<or> voc = Some {}")
        case True
        with sc show ?thesis by auto
      next
        case nv: False
        with voc have wf: "wf_reverse rtbl" and ma: "marker_atomic rtbl" by auto
        from nv obtain v where v: "voc = Some v" "v \<noteq> {}" by (cases voc) auto
        from check_vocab_and_split_returns [OF sne wf no_marker_entry [OF wf ma], of v sep]
        obtain out where out: "check_vocab_and_split stripped rtbl v sep = Inr out" by blast
        from check_vocab_and_split_concat [OF wf ma out] sc have "concat out = orig" by simp
        with out v show ?thesis by simp
      qed
      then obtain result where "(case voc of None \<Rightarrow> Inr stripped
                 | Some v \<Rightarrow> if v = {} then Inr stripped
                     else check_vocab_and_split stripped rtbl v sep) = Inr result"
        and "concat result = orig" by blast
      with e cs show ?thesis by (simp add: cache_sound_update)
    qed
  qed
qed

text \<open>Rules that merge the four characters of \<open></w>\<close>, under version 0.2, with the marker
  into one symbol; and an engine with the case feature and the OpenNMT separator.\<close>

definition marker_codes :: codes where
  "marker_codes = [([u ''<'', u ''/''], 0), ([u ''</'', u ''w''], 1), ([u ''</w'', u ''></w>''], 2)]"

definition feature_engine :: BPE where
  "feature_engine = (lower_engine [0, 1])\<lparr>separator := [onmt_sep], case_feature := True\<rparr>"

lemmas feature_eval = feature_items_def get_case_feature_def

section \<open>The case feature\<close>

text \<open>
  A string of ASCII letters; and the case patterns that a tag can name: no upper-case
  letter, only the first, all of them, or only the last.
\<close>

definition letters :: "ustr \<Rightarrow> bool" where
  "letters s = list_all (\<lambda>c. isupper c \<or> islower c) s"

definition case_pattern_ok :: "ustr \<Rightarrow> bool" where
  "case_pattern_ok surf \<longleftrightarrow>
     list_all islower surf
     \<or> (isupper (hd surf) \<and> list_all islower (tl surf))
     \<or> list_all isupper surf
     \<or> (list_all islower (butlast surf) \<and> isupper (last surf))"

lemma lower_not_upper: "islower c \<Longrightarrow> \<not> isupper c"
  by (simp add: islower_def isupper_def)

lemma lower_c_lower [simp]: "islower c \<Longrightarrow> lower_c c = c"
  by (simp add: lower_c_def lower_not_upper)

lemma upper_c_upper [simp]: "isupper c \<Longrightarrow> upper_c c = c"
  by (auto simp: upper_c_def islower_def isupper_def)

lemma upper_lower_c [simp]: "isupper c \<Longrightarrow> upper_c (lower_c c) = c"
  by (auto simp: upper_c_def lower_c_def islower_def isupper_def)

lemma upper_c_sep [simp]: "upper_c onmt_sep = onmt_sep"
  by (simp add: upper_c_def islower_def onmt_sep_def)

lemma sep_not_letter [simp]: "\<not> isupper onmt_sep" "\<not> islower onmt_sep"
  by (simp_all add: isupper_def islower_def onmt_sep_def)

lemma lower_all_lower: "list_all islower s \<Longrightarrow> lower s = s"
  by (induction s) (auto simp: lower_def)

lemma upper_lower_all_upper: "list_all isupper s \<Longrightarrow> upper (lower s) = s"
  by (induction s) (auto simp: lower_def upper_def)

lemma lower_letters_islower: "isupper c \<or> islower c \<Longrightarrow> islower (lower_c c)"
  by (auto simp: lower_c_def islower_def isupper_def)

lemma all_lower_not_all_upper: "s \<noteq> [] \<Longrightarrow> list_all islower s \<Longrightarrow> \<not> list_all isupper s"
  by (cases s) (auto simp: lower_not_upper)

lemma list_shape:
  obtains "s = []" | a where "s = [a]" | a b where "s = [a, b]"
  | a mid z where "s = a # mid @ [z]" "mid \<noteq> []"
proof (cases s)
  case Nil then show ?thesis using that by simp
next
  case (Cons a r)
  show ?thesis
  proof (cases r rule: rev_cases)
    case Nil with Cons show ?thesis using that by simp
  next
    case (snoc mid z)
    with Cons show ?thesis using that by (cases mid) auto
  qed
qed

lemma tag_of_one:
  "get_case_feature [a] = Inr (if isupper a then u ''S'' else u ''N'')"
  by (simp add: get_case_feature_def)

lemma tag_of_two:
  "get_case_feature [a, b] =
     Inr (if isupper a \<and> isupper b then u ''A'' else if isupper a then u ''S''
          else if isupper b then u ''E'' else u ''N'')"
  by (simp add: get_case_feature_def)

lemma tag_of_more:
  "mid \<noteq> [] \<Longrightarrow> get_case_feature (a # mid @ [z]) =
     Inr (if isupper z then
            (if isupper a \<and> list_all isupper mid then u ''A''
             else if isupper a then u ''B'' else u ''E'')
          else if isupper a then u ''S'' else u ''N'')"
  by (cases mid) (auto simp: get_case_feature_def butlast_append)

lemma tags_differ [simp]:
  "u ''N'' \<noteq> u ''A''" "u ''N'' \<noteq> u ''S''" "u ''N'' \<noteq> u ''E''" "u ''N'' \<noteq> u ''B''"
  "u ''A'' \<noteq> u ''N''" "u ''A'' \<noteq> u ''S''" "u ''A'' \<noteq> u ''E''" "u ''A'' \<noteq> u ''B''"
  "u ''S'' \<noteq> u ''N''" "u ''S'' \<noteq> u ''A''" "u ''S'' \<noteq> u ''E''" "u ''S'' \<noteq> u ''B''"
  "u ''E'' \<noteq> u ''N''" "u ''E'' \<noteq> u ''A''" "u ''E'' \<noteq> u ''S''" "u ''E'' \<noteq> u ''B''"
  by (simp_all add: u_def)

lemma apply_case_N: "apply_case norm (u ''N'') = Inr norm"
  by (simp add: apply_case_def)

lemma apply_case_A: "apply_case norm (u ''A'') = Inr (upper norm)"
  by (simp add: apply_case_def)

lemma apply_case_S: "norm \<noteq> [] \<Longrightarrow> apply_case norm (u ''S'') = Inr (upper [hd norm] @ tl norm)"
  by (simp add: apply_case_def)

lemma apply_case_E:
  assumes "core \<noteq> []" and "hd core \<noteq> onmt_sep" and "last core \<noteq> onmt_sep"
    and "sep = [] \<or> sep = [onmt_sep]"
  shows "apply_case (core @ sep) (u ''E'') = Inr (butlast core @ upper [last core] @ sep)"
  using assms by (auto simp: apply_case_def Let_def butlast_append)

text \<open>
  The core of the round trip: for a non-empty slice of ASCII letters with one of the
  four patterns, \<open>apply_case\<close> on the lower-cased slice, with or without the OpenNMT
  separator after it, and the tag of the slice gives the slice back.
\<close>

lemma restore_slice:
  assumes ne: "surf \<noteq> []" and le: "letters surf" and ok: "case_pattern_ok surf"
    and sep: "sep = [] \<or> sep = [onmt_sep]"
  shows "\<exists>feat. get_case_feature surf = Inr feat
           \<and> apply_case (lower surf @ sep) feat = Inr (surf @ sep)"
proof (cases surf rule: list_shape)
  case 1
  with ne show ?thesis by simp
next
  case (2 a)
  from le 2 have "isupper a \<or> islower a" by (simp add: letters_def)
  then show ?thesis unfolding 2
    by (auto simp: tag_of_one apply_case_N apply_case_S lower_def upper_def lower_not_upper)
next
  case (3 a b)
  from le 3 have l: "isupper a \<or> islower a" "isupper b \<or> islower b" by (simp_all add: letters_def)
  show ?thesis
  proof (cases "isupper a")
    case ua: True
    show ?thesis
    proof (cases "isupper b")
      case True
      with ua sep show ?thesis unfolding 3
        by (auto simp: tag_of_two apply_case_A lower_def upper_def)
    next
      case False
      with l have "islower b" by simp
      with ua False show ?thesis unfolding 3
        by (simp add: tag_of_two apply_case_S lower_def upper_def)
    qed
  next
    case na: False
    with l have la: "islower a" by simp
    show ?thesis
    proof (cases "isupper b")
      case True
      have "apply_case ([a, lower_c b] @ sep) (u ''E'') = Inr (butlast [a, lower_c b] @ upper [last [a, lower_c b]] @ sep)"
        using sep la True lower_letters_islower [of b]
        by (intro apply_case_E) auto
      with na la True show ?thesis unfolding 3
        by (simp add: tag_of_two lower_def upper_def)
    next
      case False
      with l have "islower b" by simp
      with na la False show ?thesis unfolding 3
        by (simp add: tag_of_two apply_case_N lower_def)
    qed
  qed
next
  case (4 a mid z)
  from le 4 have l: "isupper a \<or> islower a" "isupper z \<or> islower z"
    and lm: "list_all (\<lambda>c. isupper c \<or> islower c) mid" by (simp_all add: letters_def)
  from ok 4 consider
      (N) "islower a" "list_all islower mid" "islower z"
    | (S) "isupper a" "list_all islower mid" "islower z"
    | (A) "isupper a" "list_all isupper mid" "isupper z"
    | (E) "islower a" "list_all islower mid" "isupper z"
    by (auto simp: case_pattern_ok_def butlast_append)
  then show ?thesis
  proof cases
    case N
    then show ?thesis unfolding 4
      by (simp add: tag_of_more [OF 4(2)] apply_case_N lower_def lower_not_upper
          lower_all_lower [unfolded lower_def])
  next
    case S
    then show ?thesis unfolding 4
      by (simp add: tag_of_more [OF 4(2)] apply_case_S lower_def upper_def lower_not_upper
          lower_all_lower [unfolded lower_def])
  next
    case A
    then have "map (upper_c \<circ> lower_c) mid = mid"
      by (simp add: list_all_iff map_idI)
    with A show ?thesis unfolding 4 using sep
      by (auto simp: tag_of_more [OF 4(2)] apply_case_A lower_def upper_def)
  next
    case E
    let ?core = "lower (a # mid @ [z])"
    have core: "?core = a # mid @ [lower_c z]"
      using E by (simp add: lower_def lower_all_lower [unfolded lower_def])
    from E lower_letters_islower [of z] have "lower_c z \<noteq> onmt_sep" by auto
    then have "apply_case (?core @ sep) (u ''E'') = Inr (butlast ?core @ upper [last ?core] @ sep)"
      using sep E unfolding core by (intro apply_case_E) auto
    with E show ?thesis unfolding 4 core
      by (simp add: tag_of_more [OF 4(2)] lower_not_upper upper_def butlast_append)
  qed
qed

text \<open>Without a vocabulary the tokens of \<open>encode\<close> are non-empty. A cache is exact when
  the sequences it holds are such token sequences.\<close>

definition cache_exact :: "cache \<Rightarrow> bool" where
  "cache_exact c \<longleftrightarrow>
     (\<forall>w toks. c w = Some toks \<longrightarrow> sublist eow w \<or> (concat toks = w \<and> [] \<notin> set toks))"

lemma cache_exact_update:
  "cache_exact c \<Longrightarrow> concat toks = w \<Longrightarrow> [] \<notin> set toks \<Longrightarrow> cache_exact (c(w \<mapsto> toks))"
  by (auto simp: cache_exact_def)

lemma cache_exact_sound: "cache_exact c \<Longrightarrow> cache_sound c"
  by (auto simp: cache_exact_def cache_sound_def)

lemma merge_pair_no_empty: "[] \<notin> set w \<Longrightarrow> [] \<notin> set (merge_pair first second w)"
  by (induction first second w rule: merge_pair.induct) auto

lemma merge_loop_no_empty:
  assumes "2 \<le> length word" and "[] \<notin> set word"
  shows "\<exists>merged. merge_loop tbl word = Inr merged \<and> [] \<notin> set merged"
proof (rule merge_loop_invariant [where I = "\<lambda>w. [] \<notin> set w", OF assms(1)])
  show "[] \<notin> set (merge_pair first second w)" if "[] \<notin> set w" for first second w
    using that by (rule merge_pair_no_empty)
  show "[] \<notin> set word" by (rule assms(2))
qed

lemma initial_word_no_empty: "initial_word orig ver = Inr word \<Longrightarrow> [] \<notin> set word"
  by (auto simp: initial_word_def chars_def eow_def u_def split: if_splits)

lemma strip_eow_no_empty:
  assumes "strip_eow merged = Inr stripped" and "[] \<notin> set merged"
    and "concat merged = orig @ eow" and "\<not> sublist eow orig"
  shows "[] \<notin> set stripped"
proof -
  from assms(1) have ne: "merged \<noteq> []" by (auto simp: strip_eow_def split: if_splits)
  have nb: "[] \<notin> set (butlast merged)" using assms(2) by (auto dest: in_set_butlastD)
  show ?thesis
  proof (cases "last merged = eow")
    case True
    with assms(1) ne nb show ?thesis by (auto simp: strip_eow_def)
  next
    case False
    show ?thesis
    proof (cases "suffix eow (last merged)")
      case s: True
      then obtain x where x: "last merged = x @ eow" by (auto simp: suffix_def)
      with False have xne: "x \<noteq> []" by auto
      from ne have "concat merged = concat (butlast merged) @ last merged"
        by (metis append_butlast_last_id concat.simps(1) concat.simps(2) concat_append append_Nil2)
      with assms(3) x have "orig = concat (butlast merged) @ x" by simp
      then have "suffix x orig" by (simp add: suffix_def)
      then have "sublist x orig" by (rule suffix_imp_sublist)
      with assms(4) have "\<not> sublist eow x" using sublist_order.order_trans by blast
      from replace_marker [OF this] x have "replace (last merged) eow [] = x"
        by (simp add: replace_def eow_def u_def)
      with assms(1) ne nb False s xne show ?thesis by (auto simp: strip_eow_def)
    next
      case n: False
      with assms(1,2) ne False show ?thesis by (auto simp: strip_eow_def)
    qed
  qed
qed

lemma encode_exact:
  assumes ver: "ver = [0, 1] \<or> ver = [0, 2]" and ne: "orig \<noteq> []"
    and nm: "\<not> sublist eow orig" and cs: "cache_exact c"
    and voc: "voc = None \<or> voc = Some {}"
  shows "\<exists>toks c1. encode orig tbl rtbl voc sep ver c gl = Inr (toks, c1)
           \<and> concat toks = orig \<and> [] \<notin> set toks \<and> cache_exact c1"
proof (cases "c orig")
  case (Some cached)
  with cs nm have "concat cached = orig \<and> [] \<notin> set cached" by (auto simp: cache_exact_def)
  with Some cs show ?thesis by (simp add: encode_def)
next
  case None
  show ?thesis
  proof (cases "orig \<in> set gl")
    case True
    with None cs ne show ?thesis by (simp add: encode_def cache_exact_update)
  next
    case False
    show ?thesis
    proof (cases "ver = [0, 2] \<and> length orig = 1")
      case True
      with encode_single_char [of orig c gl tbl rtbl voc sep] None False cs ne
      show ?thesis by simp
    next
      case one: False
      with ver ne have cond: "(ver = [0, 1] \<and> orig \<noteq> []) \<or> (ver = [0, 2] \<and> 2 \<le> length orig)"
        by (cases orig; cases "tl orig") auto
      from encode_uncached [of c orig gl ver tbl rtbl voc sep] None False cond
      obtain word merged stripped where
        w: "initial_word orig ver = Inr word" "2 \<le> length word"
        and m: "merge_loop tbl word = Inr merged"
        and s: "strip_eow merged = Inr stripped"
        and e: "encode orig tbl rtbl voc sep ver c gl =
          (case (case voc of None \<Rightarrow> Inr stripped
                 | Some v \<Rightarrow> if v = {} then Inr stripped
                     else check_vocab_and_split stripped rtbl v sep) of
             Inl e \<Rightarrow> Inl e
           | Inr result \<Rightarrow> Inr (result, c(orig \<mapsto> result)))" by blast
      from initial_word_concat [OF w(1)] have wc: "concat word = orig @ eow"
        and ws: "suffix eow (last word)" by auto
      from merge_loop_marker [OF w(2) ws, of tbl] m
      have mm: "merged \<noteq> []" "concat merged = orig @ eow" "suffix eow (last merged)"
        using wc by auto
      from merge_loop_no_empty [OF w(2) initial_word_no_empty [OF w(1)], of tbl] m
      have mne: "[] \<notin> set merged" by auto
      from strip_eow_round_trip [OF mm nm] s have sc: "concat stripped = orig" by auto
      from strip_eow_no_empty [OF s mne mm(2) nm] have sne: "[] \<notin> set stripped" .
      from voc e have "encode orig tbl rtbl voc sep ver c gl = Inr (stripped, c(orig \<mapsto> stripped))"
        by auto
      with sc sne cs show ?thesis by (simp add: cache_exact_update)
    qed
  qed
qed

text \<open>The loops of \<open>_isolate_glossaries\<close> and of the calls of \<open>encode\<close>.\<close>

lemma in_concat_sublist: "x \<in> set xs \<Longrightarrow> sublist x (concat xs)"
proof -
  assume "x \<in> set xs"
  then obtain pre post where "xs = pre @ x # post" by (auto dest: split_list)
  then have "concat xs = concat pre @ x @ concat post" by simp
  then show ?thesis unfolding sublist_def by blast
qed

lemma isolate_each_fragments:
  assumes "gloss \<noteq> []" and "[] \<notin> set segs" and "\<forall>c \<in> set (concat segs). \<not> isspace c"
  shows "\<exists>out. isolate_each segs gloss = Inr out \<and> [] \<notin> set out \<and> concat out = concat segs"
  using assms(2,3)
proof (induction segs)
  case Nil then show ?case by simp
next
  case (Cons sg segs)
  from Cons.prems have "sg \<noteq> []" "\<forall>c \<in> set sg. \<not> isspace c" by auto
  from isolate_glossary_fragments [OF this assms(1)] obtain frags where
    f: "isolate_glossary sg gloss = Inr frags" "[] \<notin> set frags" "concat frags = sg" by blast
  from Cons.IH Cons.prems obtain out where
    "isolate_each segs gloss = Inr out" "[] \<notin> set out" "concat out = concat segs" by auto
  with f show ?case by simp
qed

lemma isolate_loop_fragments:
  assumes "[] \<notin> set gl" and "[] \<notin> set segs" and "\<forall>c \<in> set (concat segs). \<not> isspace c"
  shows "\<exists>out. isolate_loop segs gl = Inr out \<and> [] \<notin> set out \<and> concat out = concat segs"
  using assms
proof (induction gl arbitrary: segs)
  case Nil then show ?case by simp
next
  case (Cons gloss gl)
  from Cons.prems(1) have g: "gloss \<noteq> []" "[] \<notin> set gl" by auto
  from isolate_each_fragments [OF g(1) Cons.prems(2,3)] obtain mid where
    m: "isolate_each segs gloss = Inr mid" "[] \<notin> set mid" "concat mid = concat segs" by blast
  from Cons.IH [OF g(2) m(2)] m(3) Cons.prems(3) obtain out where
    "isolate_loop mid gl = Inr out" "[] \<notin> set out" "concat out = concat segs" by auto
  with m show ?case by simp
qed

lemma isolate_glossaries_fragments:
  assumes "[] \<notin> set gl" and "n \<noteq> []" and "\<forall>c \<in> set n. \<not> isspace c"
  shows "\<exists>segs. isolate_glossaries gl n = Inr segs \<and> [] \<notin> set segs \<and> concat segs = n"
  using isolate_loop_fragments [OF assms(1), of "[n]"] assms(2,3)
  by (simp add: isolate_glossaries_def)

lemma encode_each_sound:
  assumes "ver = [0, 1] \<or> ver = [0, 2]"
    and "voc = None \<or> voc = Some {} \<or> (wf_reverse rtbl \<and> marker_atomic rtbl)"
    and "[] \<notin> set segs" and "\<forall>sg \<in> set segs. \<not> sublist eow sg" and "cache_sound c"
  shows "\<exists>toks c1. encode_each segs tbl rtbl voc sep ver c gl = Inr (toks, c1)
           \<and> concat toks = concat segs \<and> cache_sound c1"
  using assms(3,4,5)
proof (induction segs arbitrary: c)
  case Nil then show ?case by simp
next
  case (Cons sg segs)
  from Cons.prems have "sg \<noteq> []" "\<not> sublist eow sg" by auto
  from encode_round_trip_aux [OF assms(1) this Cons.prems(3) assms(2), of tbl sep gl]
  obtain toks c1 where e: "encode sg tbl rtbl voc sep ver c gl = Inr (toks, c1)"
    "concat toks = sg" "cache_sound c1" by blast
  from Cons.IH [OF _ _ e(3)] Cons.prems obtain rest c2 where
    "encode_each segs tbl rtbl voc sep ver c1 gl = Inr (rest, c2)"
    "concat rest = concat segs" "cache_sound c2" by auto
  with e show ?case by simp
qed

lemma encode_each_exact:
  assumes "ver = [0, 1] \<or> ver = [0, 2]" and "voc = None \<or> voc = Some {}"
    and "[] \<notin> set segs" and "\<forall>sg \<in> set segs. \<not> sublist eow sg" and "cache_exact c"
  shows "\<exists>toks c1. encode_each segs tbl rtbl voc sep ver c gl = Inr (toks, c1)
           \<and> concat toks = concat segs \<and> [] \<notin> set toks \<and> cache_exact c1"
  using assms(3,4,5)
proof (induction segs arbitrary: c)
  case Nil then show ?case by simp
next
  case (Cons sg segs)
  from Cons.prems have "sg \<noteq> []" "\<not> sublist eow sg" by auto
  from encode_exact [OF assms(1) this Cons.prems(3) assms(2), of tbl rtbl sep gl]
  obtain toks c1 where e: "encode sg tbl rtbl voc sep ver c gl = Inr (toks, c1)"
    "concat toks = sg" "[] \<notin> set toks" "cache_exact c1" by blast
  from Cons.IH [OF _ _ e(4)] Cons.prems obtain rest c2 where
    "encode_each segs tbl rtbl voc sep ver c1 gl = Inr (rest, c2)"
    "concat rest = concat segs" "[] \<notin> set rest" "cache_exact c2" by auto
  with e show ?case by simp
qed

text \<open>
  The surface slices of the original word that \<open>segment\<close> cuts by the lengths of the
  tokens, the tag of a slice, and a token with the separator, the feature symbol and
  the tag of its slice.
\<close>

fun slices :: "ustr list \<Rightarrow> ustr \<Rightarrow> ustr list" where
  "slices [] word = []"
| "slices (item # rest) word = take (length item) word # slices rest (drop (length item) word)"

definition tag_of :: "ustr \<Rightarrow> ustr" where
  "tag_of surf = (case get_case_feature surf of Inl e \<Rightarrow> [] | Inr feat \<Rightarrow> feat)"

definition tagged :: "ustr \<Rightarrow> ustr \<Rightarrow> ustr \<Rightarrow> ustr" where
  "tagged sep item surf = item @ sep @ [feat_sym] @ tag_of surf"

lemma get_case_feature_returns: "surf \<noteq> [] \<Longrightarrow> get_case_feature surf = Inr (tag_of surf)"
  by (simp add: tag_of_def get_case_feature_def Let_def)

lemma length_slices: "length (slices toks word) = length toks"
  by (induction toks arbitrary: word) auto

lemma slices_snoc:
  "slices (toks @ [t]) word
     = slices toks word @ [take (length t) (drop (length (concat toks)) word)]"
  by (induction toks arbitrary: word) (auto simp: add.commute)

lemma slices_map:
  "concat toks = map g word \<Longrightarrow>
     map (map g) (slices toks word) = toks \<and> concat (slices toks word) = word"
proof (induction toks arbitrary: word)
  case Nil then show ?case by simp
next
  case (Cons t toks)
  from Cons.prems have t: "t = map g (take (length t) word)"
    by (metis append_eq_conv_conj concat.simps(2) take_map)
  from Cons.prems have "concat toks = map g (drop (length t) word)"
    by (metis append_eq_conv_conj concat.simps(2) drop_map)
  from Cons.IH [OF this] t show ?case by simp
qed

lemma before_end: "t \<noteq> [] \<Longrightarrow> pos + length t \<le> n \<Longrightarrow> pos < n"
  by (cases t) auto

lemma feature_loop_returns:
  assumes "[] \<notin> set toks" and "pos + length (concat toks) \<le> length word"
  shows "feature_loop toks word pos sep
     = Inr (map (\<lambda>(item, surf). tagged sep item surf) (zip toks (slices toks (drop pos word))),
            pos + length (concat toks))"
  using assms
proof (induction toks arbitrary: pos)
  case Nil then show ?case by simp
next
  case (Cons t toks)
  from Cons.prems have "t \<noteq> []" "pos + length t \<le> length word" by auto
  then have "t \<noteq> []" "pos < length word" by (auto dest: before_end)
  then have "take (length t) (drop pos word) \<noteq> []" by simp
  from get_case_feature_returns [OF this]
  have g: "get_case_feature (take (length t) (drop pos word))
            = Inr (tag_of (take (length t) (drop pos word)))" .
  from Cons.prems have "[] \<notin> set toks" "(pos + length t) + length (concat toks) \<le> length word"
    by auto
  from Cons.IH [OF this] g show ?case
    by (simp add: tagged_def add.commute add.left_commute)
qed

lemma feature_items_returns:
  assumes "toks \<noteq> []" and "[] \<notin> set toks" and "length (concat toks) = length word"
  shows "feature_items toks word sep
     = Inr (map (\<lambda>(item, surf). tagged sep item surf)
              (zip (butlast toks) (butlast (slices toks word)))
            @ [tagged [] (last toks) (last (slices toks word))])"
proof -
  let ?b = "butlast toks"
  let ?pos = "length (concat ?b)"
  from assms(1) have split: "toks = ?b @ [last toks]" by simp
  then have "concat toks = concat ?b @ last toks"
    by (metis concat.simps(1) concat.simps(2) concat_append append_Nil2)
  with assms(3) have len: "?pos + length (last toks) = length word" by (metis length_append)
  from assms(1,2) have lne: "last toks \<noteq> []" by (metis last_in_set)
  from assms(2) have nb: "[] \<notin> set ?b" by (auto dest: in_set_butlastD)
  from len have "0 + length (concat ?b) \<le> length word" by simp
  from feature_loop_returns [OF nb this, of sep]
  have fl: "feature_loop ?b word 0 sep
     = Inr (map (\<lambda>(item, surf). tagged sep item surf) (zip ?b (slices ?b word)), ?pos)" by simp
  have sl: "slices toks word = slices ?b word @ [drop ?pos word]"
    using slices_snoc [of ?b "last toks" word] split len by simp
  then have bs: "butlast (slices toks word) = slices ?b word"
    and ls: "last (slices toks word) = drop ?pos word" by simp_all
  from before_end [OF lne, of ?pos "length word"] len have "?pos < length word" by simp
  then have "drop ?pos word \<noteq> []" by simp
  from get_case_feature_returns [OF this] fl assms(1) show ?thesis
    by (simp add: feature_items_def bs ls tagged_def)
qed

text \<open>Decoding a tagged token.\<close>

lemma letters_take: "letters s \<Longrightarrow> letters (take n s)"
  by (auto simp: letters_def list_all_iff dest: in_set_takeD)

lemma letters_drop: "letters s \<Longrightarrow> letters (drop n s)"
  by (auto simp: letters_def list_all_iff dest: in_set_dropD)

lemma letters_slices: "letters word \<Longrightarrow> list_all letters (slices toks word)"
  by (induction toks arbitrary: word) (auto simp: letters_take letters_drop)

lemma lower_no_feat_sym: "letters s \<Longrightarrow> feat_sym \<notin> set (lower s)"
proof
  assume l: "letters s" and "feat_sym \<in> set (lower s)"
  then obtain c where "c \<in> set s" "lower_c c = feat_sym" by (auto simp: lower_def)
  with l lower_letters_islower [of c] have "islower feat_sym" by (auto simp: letters_def list_all_iff)
  then show False by (simp add: islower_def feat_sym_def)
qed

lemma detok_tagged:
  assumes "surf \<noteq> []" and "letters surf" and "case_pattern_ok surf"
    and "sep = [] \<or> sep = [onmt_sep]"
  shows "detok_word (tagged sep (lower surf) surf) = Inr (surf @ sep)"
proof -
  from restore_slice [OF assms] get_case_feature_returns [OF assms(1)]
  have a: "apply_case (lower surf @ sep) (tag_of surf) = Inr (surf @ sep)" by auto
  have nf: "feat_sym \<notin> set (lower surf @ sep)"
    using lower_no_feat_sym [OF assms(2)] assms(4) by (auto simp: feat_sym_def onmt_sep_def)
  then have "takeWhile (\<lambda>c. c \<noteq> feat_sym) ((lower surf @ sep) @ feat_sym # tag_of surf)
      = lower surf @ sep"
    by (intro takeWhile_append2 [THEN trans]) auto
  moreover from nf have "dropWhile (\<lambda>c. c \<noteq> feat_sym) ((lower surf @ sep) @ feat_sym # tag_of surf)
      = feat_sym # tag_of surf"
    by (intro dropWhile_append2 [THEN trans]) auto
  ultimately show ?thesis using a by (simp add: detok_word_def tagged_def)
qed

lemma detok_words_map:
  "\<forall>x \<in> set xs. detok_word (f x) = Inr (h x) \<Longrightarrow> detok_words (map f xs) = Inr (map h xs)"
  by (induction xs) auto

lemma islower_not_space: "islower c \<Longrightarrow> \<not> isspace c"
  by (simp add: islower_def isspace_def)

lemma lower_letters_all: "letters s \<Longrightarrow> list_all islower (lower s)"
  by (auto simp: letters_def lower_def list_all_iff lower_letters_islower)

lemma letters_no_marker: "list_all islower s \<Longrightarrow> \<not> sublist eow s"
proof
  assume l: "list_all islower s" and "sublist eow s"
  from set_mono_sublist [OF this(2)] have "60 \<in> set s" by (auto simp: eow_def u_def)
  with l have "islower 60" by (auto simp: list_all_iff)
  then show False by (simp add: islower_def)
qed

lemma detok_words_append:
  "detok_words xs = Inr a \<Longrightarrow> detok_words ys = Inr b \<Longrightarrow> detok_words (xs @ ys) = Inr (a @ b)"
  by (induction xs arbitrary: a) (auto split: sum.splits)

text \<open>An engine with the case feature and the rules \<open>(a, b)\<close> and \<open>(ab, c)\<close>.\<close>

definition abc_engine :: "ustr \<Rightarrow> BPE" where
  "abc_engine sep =
     \<lparr>version = [0, 1], bpe_codes = [([u ''a'', u ''b''], 0), ([u ''ab'', u ''c''], 1)],
      bpe_codes_reverse = [(u ''ab'', [u ''a'', u ''b'']), (u ''abc'', [u ''ab'', u ''c''])],
      separator = sep, vocab = None, glossaries = [], case_feature = True,
      cache = Map.empty\<rparr>"

lemmas detok_eval = detok_word_def apply_case_def

text \<open>The tag \<open>B\<close> is given to a slice whose first and last letters are upper case and
  whose middle is not all upper case; \<open>apply_case\<close> makes only the first letter upper
  case for it.\<close>

lemma tag_B_restores_first_only:
  "get_case_feature (u ''AbC'') = Inr (u ''B'') \<and> apply_case (u ''abc'') (u ''B'') = Inr (u ''Abc'')"
  by (simp add: feature_eval detok_eval str_eval)

text \<open>An engine with the case feature, version 0.1, the rule \<open>(b, </w>)\<close> and a vocabulary
  that holds none of the tokens.\<close>

definition marker_rule_engine :: BPE where
  "marker_rule_engine =
     \<lparr>version = [0, 1], bpe_codes = [([u ''b'', u ''</w>''], 0)],
      bpe_codes_reverse = [(u ''b</w>'', [u ''b'', u ''</w>''])],
      separator = [onmt_sep], vocab = Some {u ''zzz''}, glossaries = [], case_feature = True,
      cache = Map.empty\<rparr>"

text \<open>
  C3, as the specification states it, fails. The five tags do not tell every pattern: the word \<open>aBc\<close>,
  merged into one token, has the tag \<open>N\<close> and is decoded to \<open>abc\<close>. \<open>apply_case\<close>
  knows the OpenNMT separator only: with the separator \<open>@@\<close> the token \<open>ab@@\<close> with the
  tag \<open>E\<close>, for the slice \<open>aB\<close>, is decoded to \<open>ab@@\<close>. And with a vocabulary
  \<open>segment\<close> need not return: for the word \<open>ab\<close> the split under \<open>b</w>\<close> leaves the tokens
  \<open>a\<close>, \<open>b\<close> and the empty token, whose slice is empty, and \<open>get_case_feature\<close> raises
  \<open>IndexError\<close> on it.
\<close>

theorem mixed_case_token_is_not_restored:
  "outcome (segment_word (abc_engine [onmt_sep]) (u ''aBc'')) = Inr [u ''abc'' @ [feat_sym] @ u ''N'']
   \<and> detok_word (u ''abc'' @ [feat_sym] @ u ''N'') = Inr (u ''abc'')
   \<and> outcome (segment_word ((abc_engine (u ''@@''))\<lparr>bpe_codes := [([u ''a'', u ''b''], 0)]\<rparr>) (u ''aBc''))
       = Inr [u ''ab@@'' @ [feat_sym] @ u ''E'', u ''c'' @ [feat_sym] @ u ''N'']
   \<and> detok_word (u ''ab@@'' @ [feat_sym] @ u ''E'') = Inr (u ''ab@@'')
   \<and> outcome (segment_word marker_rule_engine (u ''ab'')) = Inl IndexError"
  by (simp add: abc_engine_def marker_rule_engine_def engine_eval merge_eval str_eval split_eval
      feature_eval detok_eval)

text \<open>
  C3, amended: take a non-empty word of ASCII letters and an engine with the case
  feature, the OpenNMT separator, version 0.1 or 0.2, glossaries that are all
  non-empty strings, no vocabulary (none, or an empty one), and an exact cache (every
  sequence it holds for a
  string without \<open></w>\<close> is made of non-empty tokens that concatenate to that string;
  the empty cache is exact). Then \<open>segment\<close> returns for the word and the cache is
  exact afterwards; the tokens concatenated are the lower-cased word, the slices of
  the original word under them concatenated are the word, and each emitted item is
  its token with the separator (but for the last), the feature symbol and the tag of
  its slice. If every slice has no upper-case letter, or only the first, or all, or
  only the last in upper case, then decoding the items gives the slices, each but the
  last followed by the separator. Nothing is said of slices with another pattern, the
  tag \<open>B\<close> among them.
\<close>

theorem case_round_trip:
  assumes ne: "word \<noteq> []" and le: "letters word"
    and cf: "case_feature self" and sep: "separator self = [onmt_sep]"
    and gl: "[] \<notin> set (glossaries self)"
    and voc: "vocab self = None \<or> vocab self = Some {}"
    and ver: "version self = [0, 1] \<or> version self = [0, 2]"
    and ce: "cache_exact (cache self)"
  shows "\<exists>toks items self1.
      segment_word self word = Inr (items, self1) \<and> cache_exact (cache self1)
      \<and> concat toks = lower word \<and> concat (slices toks word) = word
      \<and> items = map (\<lambda>(item, surf). tagged [onmt_sep] item surf)
                   (zip (butlast toks) (butlast (slices toks word)))
                 @ [tagged [] (last toks) (last (slices toks word))]
      \<and> (list_all case_pattern_ok (slices toks word) \<longrightarrow>
           detok_words items
             = Inr (map (\<lambda>surf. surf @ [onmt_sep]) (butlast (slices toks word))
                    @ [last (slices toks word)]))"
proof -
  let ?n = "lower word"
  have low: "list_all islower ?n" using le by (rule lower_letters_all)
  have nw: "norm_word True word = ?n"
    using lower_no_feat_sym [OF le] by (simp add: norm_word_def)
  have nne: "?n \<noteq> []" using ne by (simp add: lower_def)
  have nsp: "\<forall>c \<in> set ?n. \<not> isspace c"
    using low by (auto simp: list_all_iff islower_not_space)
  from isolate_glossaries_fragments [OF gl nne nsp] obtain segs where
    segs: "isolate_glossaries (glossaries self) ?n = Inr segs" "[] \<notin> set segs"
      "concat segs = ?n" by blast
  have nomark: "\<forall>sg \<in> set segs. \<not> sublist eow sg"
  proof
    fix sg assume "sg \<in> set segs"
    from in_concat_sublist [OF this] segs(3) have "sublist sg ?n" by simp
    with letters_no_marker [OF low] show "\<not> sublist eow sg"
      using sublist_order.order_trans by blast
  qed
  from encode_each_exact [OF ver voc segs(2) nomark ce,
      of "bpe_codes self" "bpe_codes_reverse self" "separator self" "glossaries self"]
  obtain toks c1 where
    enc: "encode_each segs (bpe_codes self) (bpe_codes_reverse self) (vocab self)
            (separator self) (version self) (cache self) (glossaries self) = Inr (toks, c1)"
    and ct: "concat toks = ?n" and tne: "[] \<notin> set toks" and c1: "cache_exact c1"
    using segs(3) by auto
  from ct nne have tn: "toks \<noteq> []" by auto
  from ct have len: "length (concat toks) = length word" by (simp add: lower_def)
  let ?S = "slices toks word"
  let ?items = "map (\<lambda>(item, surf). tagged [onmt_sep] item surf) (zip (butlast toks) (butlast ?S))
                 @ [tagged [] (last toks) (last ?S)]"
  from feature_items_returns [OF tn tne len, of "[onmt_sep]"]
  have fi: "feature_items toks word [onmt_sep] = Inr ?items" .
  have sw: "segment_word self word = Inr (?items, self\<lparr>cache := c1\<rparr>)"
    using segs(1) enc fi cf sep by (simp add: segment_word_def nw)
  from ct have "concat toks = map lower_c word" by (simp add: lower_def)
  from slices_map [OF this] have "map (map lower_c) ?S = toks" and cs: "concat ?S = word"
    by simp_all
  moreover have "lower = map lower_c" by (simp add: fun_eq_iff lower_def)
  ultimately have ml: "map lower ?S = toks" by simp
  have dec: "detok_words ?items
       = Inr (map (\<lambda>surf. surf @ [onmt_sep]) (butlast ?S) @ [last ?S])"
    if ok: "list_all case_pattern_ok ?S"
  proof -
    have Sne: "?S \<noteq> []" using tn ml by auto
    have each: "s \<noteq> [] \<and> letters s \<and> case_pattern_ok s" if "s \<in> set ?S" for s
    proof -
      from that ml have "lower s \<in> set toks" by (metis image_eqI set_map)
      with tne have "s \<noteq> []" by (auto simp: lower_def)
      with that ok letters_slices [OF le, of toks] show ?thesis by (auto simp: list_all_iff)
    qed
    have z: "zip (butlast toks) (butlast ?S) = map (\<lambda>s. (lower s, s)) (butlast ?S)"
      by (subst ml [symmetric]) (simp add: map_butlast [symmetric] zip_map1 zip_same_conv_map)
    have lt: "last toks = lower (last ?S)"
      using Sne by (subst ml [symmetric]) (simp add: last_map)
    have front: "detok_words (map (\<lambda>s. tagged [onmt_sep] (lower s) s) (butlast ?S))
        = Inr (map (\<lambda>surf. surf @ [onmt_sep]) (butlast ?S))"
    proof (rule detok_words_map, rule ballI)
      fix s assume "s \<in> set (butlast ?S)"
      then have "s \<in> set ?S" by (rule in_set_butlastD)
      from each [OF this] show "detok_word (tagged [onmt_sep] (lower s) s) = Inr (s @ [onmt_sep])"
        by (intro detok_tagged) auto
    qed
    have "last ?S \<in> set ?S" using Sne by simp
    from each [OF this] have "detok_word (tagged [] (lower (last ?S)) (last ?S)) = Inr (last ?S @ [])"
      by (intro detok_tagged) auto
    then have fin: "detok_words [tagged [] (lower (last ?S)) (last ?S)] = Inr [last ?S]"
      by simp
    from detok_words_append [OF front fin] show ?thesis
      by (simp add: z lt comp_def case_prod_unfold)
  qed
  from sw c1 ct cs dec show ?thesis by (intro exI [of _ toks] exI [of _ ?items] exI) auto
qed

theorem case_round_trip_witness:
  "outcome (segment_word feature_engine (u ''Lower''))
     = Inr [u ''low'' @ [onmt_sep, feat_sym] @ u ''S'', u ''e'' @ [onmt_sep, feat_sym] @ u ''N'',
            u ''r'' @ [feat_sym] @ u ''N'']
   \<and> detok_words [u ''low'' @ [onmt_sep, feat_sym] @ u ''S'',
         u ''e'' @ [onmt_sep, feat_sym] @ u ''N'', u ''r'' @ [feat_sym] @ u ''N'']
     = Inr [u ''Low'' @ [onmt_sep], u ''e'' @ [onmt_sep], u ''r'']
   \<and> slices [u ''low'', u ''e'', u ''r''] (u ''Lower'') = [u ''Low'', u ''e'', u ''r'']
   \<and> list_all case_pattern_ok [u ''Low'', u ''e'', u ''r'']"
  using case_round_trip [of "u ''Lower''" feature_engine]
  by (simp add: feature_engine_def lower_engine_def lower_codes_def engine_eval merge_eval
      str_eval feature_eval detok_eval case_pattern_ok_def)

section \<open>The round trip of \<open>segment\<close>\<close>

text \<open>
  What is left of an emitted item once the feature tag (the feature symbol and what
  follows it, when the case feature is on) and the separator at its end are taken
  off, and the items of one word put together this way; the last item has no
  separator.
\<close>

definition untag :: "bool \<Rightarrow> ustr \<Rightarrow> ustr" where
  "untag cf item = (if cf then takeWhile (\<lambda>c. c \<noteq> feat_sym) item else item)"

definition unsep :: "ustr \<Rightarrow> ustr \<Rightarrow> ustr" where
  "unsep sep item = take (length item - length sep) item"

definition restored :: "ustr \<Rightarrow> bool \<Rightarrow> ustr list \<Rightarrow> ustr" where
  "restored sep cf items =
     concat (map (\<lambda>item. unsep sep (untag cf item)) (butlast items)) @ untag cf (last items)"

text \<open>Replacing one character by another is a \<open>map\<close>; the segmented word has no
  whitespace and, with the case feature, no feature symbol.\<close>

lemma replace_char:
  "replace_ne [c] [d] s = map (\<lambda>x. if x = c then d else x) s"
proof (induction s)
  case Nil
  then show ?case by (simp add: replace_ne.simps [of "[c]" "[d]" "[]"])
next
  case (Cons x s)
  then show ?case by (auto simp: replace_ne.simps [of "[c]" "[d]" "x # s"])
qed

lemma lower_c_space: "isspace (lower_c c) \<longleftrightarrow> isspace c"
  by (auto simp: lower_c_def isspace_def isupper_def)

lemma norm_word_facts:
  assumes "word \<noteq> []" and "\<forall>c \<in> set word. \<not> isspace c"
  shows "norm_word cf word \<noteq> []" and "\<forall>c \<in> set (norm_word cf word). \<not> isspace c"
    and "cf \<longrightarrow> feat_sym \<notin> set (norm_word cf word)"
proof -
  have b: "u ''|'' = [124]" by (simp add: u_def)
  have ns: "\<not> isspace 124" by (simp add: isspace_def)
  have l: "\<forall>c \<in> set (lower word). \<not> isspace c"
    using assms(2) by (auto simp: lower_def lower_c_space)
  show "norm_word cf word \<noteq> []"
    using assms(1) by (simp add: norm_word_def Let_def replace_def replace_char b lower_def)
  show "\<forall>c \<in> set (norm_word cf word). \<not> isspace c"
    using assms(2) l ns by (auto simp: norm_word_def Let_def replace_def replace_char b)
  show "cf \<longrightarrow> feat_sym \<notin> set (norm_word cf word)"
    by (auto simp: norm_word_def Let_def replace_def replace_char b feat_sym_def)
qed

lemma ascii_lower_no_feat_sym: "\<forall>c \<in> set s. c < 128 \<Longrightarrow> feat_sym \<notin> set (lower s)"
  by (auto simp: lower_def lower_c_def feat_sym_def isupper_def)

text \<open>The items of both modes, with tag and separator taken off, are the tokens.\<close>

lemma unsep_append: "unsep sep (t @ sep) = t"
  by (simp add: unsep_def)

lemma concat_butlast_last: "toks \<noteq> [] \<Longrightarrow> concat (butlast toks) @ last toks = concat toks"
  by (metis append_butlast_last_id concat.simps(1) concat.simps(2) concat_append append_Nil2)

lemma takeWhile_before:
  "feat_sym \<notin> set xs \<Longrightarrow> takeWhile (\<lambda>c. c \<noteq> feat_sym) (xs @ feat_sym # ys) = xs"
  by (induction xs) auto

lemma feature_loop_untag:
  assumes "feature_loop ts word pos sep = Inr (outs, pos1)"
    and "feat_sym \<notin> set sep" and "\<forall>t \<in> set ts. feat_sym \<notin> set t"
  shows "map (untag True) outs = map (\<lambda>t. t @ sep) ts"
  using assms(1,3)
proof (induction ts arbitrary: pos outs pos1)
  case Nil then show ?case by simp
next
  case (Cons t ts)
  from Cons.prems(1) obtain feat rest pos2 where
    r: "feature_loop ts word (pos + length t) sep = Inr (rest, pos2)"
    and o: "outs = (t @ sep @ [feat_sym] @ feat) # rest"
    by (auto split: sum.splits prod.splits)
  from Cons.prems(2) assms(2) have "feat_sym \<notin> set (t @ sep)" by simp
  from takeWhile_before [OF this, of feat] have "untag True (t @ sep @ [feat_sym] @ feat) = t @ sep"
    by (simp add: untag_def)
  with Cons.IH [OF r] Cons.prems(2) o show ?case by simp
qed

lemma feature_items_restored:
  assumes "feature_items toks word sep = Inr items"
    and "feat_sym \<notin> set sep" and "feat_sym \<notin> set (concat toks)"
  shows "restored sep True items = concat toks"
proof -
  from assms(1) obtain outs pos feat where
    l: "feature_loop (butlast toks) word 0 sep = Inr (outs, pos)"
    and ne: "toks \<noteq> []" and items: "items = outs @ [last toks @ [feat_sym] @ feat]"
    by (auto simp: feature_items_def split: sum.splits prod.splits if_splits)
  from assms(3) have nf: "\<forall>t \<in> set toks. feat_sym \<notin> set t" by auto
  then have "\<forall>t \<in> set (butlast toks). feat_sym \<notin> set t" by (auto dest: in_set_butlastD)
  from feature_loop_untag [OF l assms(2) this]
  have "map (untag True) outs = map (\<lambda>t. t @ sep) (butlast toks)" .
  then have "map (\<lambda>item. unsep sep (untag True item)) outs = butlast toks"
    by (metis (mono_tags, lifting) list.map_comp comp_def map_idI unsep_append list.map_id
        map_eq_conv)
  moreover from nf ne have "feat_sym \<notin> set (last toks)" by (metis last_in_set)
  from takeWhile_before [OF this, of feat]
  have "untag True (last toks @ [feat_sym] @ feat) = last toks" by (simp add: untag_def)
  ultimately show ?thesis using ne by (simp add: restored_def items concat_butlast_last)
qed

lemma plain_items_restored:
  assumes "toks \<noteq> []"
  shows "\<exists>items. plain_items toks sep = Inr items \<and> restored sep False items = concat toks"
proof -
  have "map (\<lambda>item. unsep sep (untag False item)) (map (\<lambda>item. item @ sep) (butlast toks))
          = butlast toks"
    by (simp add: untag_def unsep_append comp_def)
  with assms show ?thesis
    by (simp add: plain_items_def restored_def untag_def concat_butlast_last)
qed

text \<open>Engines for version 0.2: one whose rules merge \<open></w>\<close> and the marker into one
  symbol, and one with a vocabulary and a reverse-table entry that splits the marker.\<close>

definition marker_engine :: BPE where
  "marker_engine = (lower_engine [0, 2])\<lparr>bpe_codes := marker_codes\<rparr>"

definition split_marker_engine :: BPE where
  "split_marker_engine = (lower_engine [0, 2])
     \<lparr>bpe_codes := [], bpe_codes_reverse := [(u ''b</w>'', [u ''b<'', u ''/w>''])],
      vocab := Some {u ''zzz''}\<rparr>"

text \<open>
  C1, as the specification states it, fails in three ways. With the case feature the tokens are those
  of the lower-cased word: \<open>A\<close> gives the token \<open>a\<close> with the tag \<open>S\<close>. A word that
  contains the marker loses it: under version 0.2 the word \<open></w>\<close>, once merged into
  one symbol with the marker, gives the empty token, since \<open>replace\<close> removes every
  occurrence. And with a vocabulary, a reverse-table entry that splits the marker
  (\<open>b</w>\<close> from \<open>b<\<close> and \<open>/w>\<close>) turns the word \<open>ab\<close> into \<open>a\<close>, \<open>b<\<close> and the empty token.
\<close>

theorem tokens_do_not_give_word_back:
  "outcome (segment_word feature_engine (u ''A'')) = Inr [u ''a'' @ [feat_sym] @ u ''S'']
   \<and> restored [onmt_sep] True [u ''a'' @ [feat_sym] @ u ''S''] = u ''a''
   \<and> outcome (segment_word marker_engine (u ''</w>'')) = Inr [[]]
   \<and> restored (u ''@@'') False [[]] = []
   \<and> outcome (segment_word split_marker_engine (u ''ab'')) = Inr [u ''a@@'', u ''b<@@'', []]
   \<and> restored (u ''@@'') False [u ''a@@'', u ''b<@@'', []] = u ''ab<''"
  by (simp add: feature_engine_def marker_engine_def split_marker_engine_def lower_engine_def
      lower_codes_def marker_codes_def engine_eval merge_eval str_eval split_eval feature_eval
      restored_def untag_def unsep_def)

text \<open>
  C1, amended: take a non-empty word without whitespace (the words of \<open>segment\<close> come
  from \<open>split\<close>) and an engine of version 0.1 or 0.2 with any rule table, glossaries
  that are all non-empty strings, a sound cache (every sequence it holds for a string
  without \<open></w>\<close> concatenates to that string; the empty cache is sound) and, if it has
  a non-empty vocabulary, a reverse table that is well formed (every pair is two
  non-empty strings under their concatenation) and in which the marker is atomic
  (the right part of a pair under a key that ends in \<open></w>\<close> ends in \<open></w>\<close>).

  Without the case feature, if the word does not contain \<open></w>\<close>, \<open>segment\<close> returns
  for the word, and its items, with the separator taken off the end of every item but
  the last, concatenate to the original word.

  With the case feature, let the word consist of ASCII characters, its lower-cased
  form not contain \<open></w>\<close>, and the separator not contain the feature symbol. Then
  whenever \<open>segment\<close> returns for the word, its items, each cut at the feature symbol
  and with the separator taken off the end of every item but the last, concatenate to
  the lower-cased word, not to the original; and \<open>segment\<close> does return if there is no
  vocabulary (none, or an empty one) and the cache is exact (sound, and it holds no
  empty token for a string without \<open></w>\<close>).

  In both modes the cache is sound afterwards.
\<close>

theorem segment_round_trip:
  assumes ne: "word \<noteq> []" and ws: "\<forall>c \<in> set word. \<not> isspace c"
    and nm: "\<not> sublist eow (if case_feature self then lower word else word)"
    and cf: "case_feature self \<longrightarrow>
               (\<forall>c \<in> set word. c < 128) \<and> feat_sym \<notin> set (separator self)"
    and gl: "[] \<notin> set (glossaries self)"
    and ver: "version self = [0, 1] \<or> version self = [0, 2]"
    and cs: "cache_sound (cache self)"
    and voc: "vocab self = None \<or> vocab self = Some {}
              \<or> (wf_reverse (bpe_codes_reverse self) \<and> marker_atomic (bpe_codes_reverse self))"
  shows "(\<not> case_feature self
            \<or> ((vocab self = None \<or> vocab self = Some {}) \<and> cache_exact (cache self))
          \<longrightarrow> (\<exists>items self1. segment_word self word = Inr (items, self1)))
    \<and> (\<forall>items self1. segment_word self word = Inr (items, self1) \<longrightarrow>
          restored (separator self) (case_feature self) items
            = (if case_feature self then lower word else word)
          \<and> cache_sound (cache self1))"
proof -
  let ?cf = "case_feature self"
  let ?n = "if ?cf then lower word else word"
  have nw: "norm_word ?cf word = ?n"
    using cf ascii_lower_no_feat_sym [of word] by (simp add: norm_word_def)
  note nf = norm_word_facts [OF ne ws, of ?cf, unfolded nw]
  from isolate_glossaries_fragments [OF gl nf(1,2)] obtain segs where
    segs: "isolate_glossaries (glossaries self) ?n = Inr segs" "[] \<notin> set segs"
      "concat segs = ?n" by blast
  have nomark: "\<forall>sg \<in> set segs. \<not> sublist eow sg"
  proof
    fix sg assume "sg \<in> set segs"
    from in_concat_sublist [OF this] segs(3) have "sublist sg ?n" by simp
    with nm show "\<not> sublist eow sg" using sublist_order.order_trans by blast
  qed
  from encode_each_sound [OF ver voc segs(2) nomark cs,
      of "bpe_codes self" "separator self" "glossaries self"]
  obtain toks c1 where
    enc: "encode_each segs (bpe_codes self) (bpe_codes_reverse self) (vocab self)
            (separator self) (version self) (cache self) (glossaries self) = Inr (toks, c1)"
    and ct: "concat toks = ?n" and c1: "cache_sound c1"
    using segs(3) by auto
  from ct nf(1) have tn: "toks \<noteq> []" by auto
  have sw: "segment_word self word =
      (case (if \<not> ?cf then plain_items toks (separator self)
             else feature_items toks word (separator self)) of
         Inl e \<Rightarrow> Inl e
       | Inr items \<Rightarrow> Inr (items, self\<lparr>cache := c1\<rparr>))"
    using segs(1) enc by (simp add: segment_word_def nw)
  show ?thesis
  proof (cases ?cf)
    case False
    from plain_items_restored [OF tn, of "separator self"] obtain items where
      "plain_items toks (separator self) = Inr items"
      "restored (separator self) False items = concat toks" by blast
    with False sw ct c1 show ?thesis by auto
  next
    case True
    with nf(3) ct have "feat_sym \<notin> set (concat toks)" by simp
    with True sw ct c1 cf have part: "\<forall>items self1. segment_word self word = Inr (items, self1) \<longrightarrow>
          restored (separator self) ?cf items = ?n \<and> cache_sound (cache self1)"
      by (auto split: sum.splits dest!: feature_items_restored)
    have ret: "\<exists>items self1. segment_word self word = Inr (items, self1)"
      if nv: "vocab self = None \<or> vocab self = Some {}" and ce: "cache_exact (cache self)"
    proof -
      from encode_each_exact [OF ver nv segs(2) nomark ce,
          of "bpe_codes self" "bpe_codes_reverse self" "separator self" "glossaries self"] enc
      have tne: "[] \<notin> set toks" by auto
      from ct True have len: "length (concat toks) = length word" by (simp add: lower_def)
      from feature_items_returns [OF tn tne len, of "separator self"] sw True
      show ?thesis by simp
    qed
    from part ret True show ?thesis by blast
  qed
qed

theorem segment_round_trip_witness:
  "outcome (segment_word (lower_engine [0, 2]) (u ''lower'')) = Inr [u ''low@@'', u ''e@@'', u ''r'']
   \<and> restored (u ''@@'') False [u ''low@@'', u ''e@@'', u ''r''] = u ''lower''
   \<and> outcome (segment_word feature_engine (u ''Lower''))
       = Inr [u ''low'' @ [onmt_sep, feat_sym] @ u ''S'', u ''e'' @ [onmt_sep, feat_sym] @ u ''N'',
              u ''r'' @ [feat_sym] @ u ''N'']
   \<and> restored [onmt_sep] True
         [u ''low'' @ [onmt_sep, feat_sym] @ u ''S'', u ''e'' @ [onmt_sep, feat_sym] @ u ''N'',
          u ''r'' @ [feat_sym] @ u ''N''] = u ''lower''"
proof -
  let ?P = "lower_engine [0, 2]" and ?F = feature_engine
  let ?plain = "[u ''low@@'', u ''e@@'', u ''r'']"
  let ?tagged = "[u ''low'' @ [onmt_sep, feat_sym] @ u ''S'',
      u ''e'' @ [onmt_sep, feat_sym] @ u ''N'', u ''r'' @ [feat_sym] @ u ''N'']"
  have p: "\<not> case_feature ?P" "separator ?P = u ''@@''" "glossaries ?P = []"
    "version ?P = [0, 2]" "vocab ?P = None" "cache ?P = Map.empty"
    by (simp_all add: lower_engine_def)
  have f: "case_feature ?F" "separator ?F = [onmt_sep]" "glossaries ?F = []"
    "version ?F = [0, 1]" "vocab ?F = None" "cache ?F = Map.empty"
    by (simp_all add: feature_engine_def lower_engine_def)
  have low: "lower (u ''Lower'') = u ''lower''" by (simp add: str_eval)
  have nm: "\<not> sublist eow (u ''lower'')" by (simp add: u_def eow_def sublist_Cons_right)
  have ascii: "\<forall>c \<in> set (u ''Lower''). c < 128" by (simp add: u_def)
  have ws: "\<forall>c \<in> set (u ''lower''). \<not> isspace c" "\<forall>c \<in> set (u ''Lower''). \<not> isspace c"
    by (simp_all add: u_def isspace_def)
  have ne: "u ''lower'' \<noteq> []" "u ''Lower'' \<noteq> []" by (simp_all add: u_def)
  have fs: "feat_sym \<notin> set [onmt_sep]" by (simp add: feat_sym_def onmt_sep_def)
  have out_p: "outcome (segment_word ?P (u ''lower'')) = Inr ?plain"
    by (simp add: lower_engine_def lower_codes_def engine_eval merge_eval str_eval)
  then obtain self1 where "segment_word ?P (u ''lower'') = Inr (?plain, self1)"
    by (cases "segment_word ?P (u ''lower'')") (auto simp: outcome_def)
  with segment_round_trip [of "u ''lower''" ?P] p ne ws nm
  have "restored (u ''@@'') False ?plain = u ''lower''"
    by (simp add: cache_sound_def)
  moreover have out_f: "outcome (segment_word ?F (u ''Lower'')) = Inr ?tagged"
    by (simp add: feature_engine_def lower_engine_def lower_codes_def engine_eval merge_eval
        str_eval feature_eval)
  then obtain self2 where "segment_word ?F (u ''Lower'') = Inr (?tagged, self2)"
    by (cases "segment_word ?F (u ''Lower'')") (auto simp: outcome_def)
  with segment_round_trip [of "u ''Lower''" ?F] f ne ws nm ascii fs low
  have "restored [onmt_sep] True ?tagged = u ''lower''"
    by (simp add: cache_sound_def)
  ultimately show ?thesis using out_p out_f by simp
qed

end
